theory Spec2Isabelle
  imports Main "HOL-Library.Multiset"
begin

section \<open>Data model\<close>

text \<open>
  The business errors of \<^verbatim>\<open>internal/domain/errors.go\<close>. Every other error a
  repository call can hand back (a failed statement, a lost connection) is
  \<open>ErrInternal\<close>: the handler maps it to HTTP 500.
\<close>

datatype error =
    ErrDepartmentNotFound
  | ErrEmployeeNotFound
  | ErrDuplicateDepartmentName
  | ErrSelfReference
  | ErrCyclicReference
  | ErrInvalidDeleteMode
  | ErrReassignTargetRequired
  | ErrReassignTargetNotFound
  | ErrCannotReassignToSelf
  | ErrInternal

text \<open>
  \<^verbatim>\<open>domain.Employee\<close>, which is also a row of table \<^verbatim>\<open>employees\<close>.
  Identifiers are \<^verbatim>\<open>int64\<close> values that the code only compares; times are
  points on a discrete clock.
\<close>

record Employee =
  e_ID :: int
  e_DepartmentID :: int
  e_FullName :: string
  e_Position :: string
  e_HiredAt :: "nat option"
  e_CreatedAt :: nat

text \<open>
  \<^verbatim>\<open>domain.Department\<close>: the four columns and the two associations that
  GORM fills only on \<^verbatim>\<open>Preload\<close> or by hand (\<^verbatim>\<open>loadChildren\<close>).
\<close>

datatype Department =
  Department (ID: int) (Name: string) (ParentID: "int option") (CreatedAt: nat)
    (Employees: "Employee list") (Children: "Department list")

text \<open>A row of table \<^verbatim>\<open>departments\<close> (migration \<^verbatim>\<open>001_init_schema.sql\<close>).\<close>

record department_row =
  d_id :: int
  d_name :: string
  d_parent_id :: "int option"
  d_created_at :: nat

definition scan_department :: "department_row \<Rightarrow> Department" where
  "scan_department r = Department (d_id r) (d_name r) (d_parent_id r) (d_created_at r) [] []"

definition row_of :: "Department \<Rightarrow> department_row" where
  "row_of d = \<lparr>d_id = ID d, d_name = Name d, d_parent_id = ParentID d, d_created_at = CreatedAt d\<rparr>"

text \<open>The SQL statements the two repositories send to the database.\<close>

datatype stmt =
    SelectDepartment int
  | SelectEmployeesOf "int list"
  | SelectChildren int
  | CountByNameAndParent string "int option" "int option"
  | SelectDescendants int
  | InsertDepartment string "int option"
  | SaveDepartment int string "int option"
  | DeleteDepartment int
  | UpdateEmployeesDepartment int int

text \<open>
  The database: the two tables in storage order, the next value of the
  \<^verbatim>\<open>BIGSERIAL\<close> sequence of \<^verbatim>\<open>departments.id\<close>, the clock read by
  \<^verbatim>\<open>autoCreateTime\<close>, the statements that the server answers with an error
  (\<open>db_fault\<close>), and the data-changing statements executed so far (\<open>writes\<close>).
  No repository call opens a transaction, so each statement commits on its own.
\<close>

record db =
  departments :: "department_row list"
  employees :: "Employee list"
  departments_id_seq :: int
  now :: nat
  db_fault :: "stmt \<Rightarrow> bool"
  writes :: "stmt list"

section \<open>Department repository\<close>

definition find_department :: "db \<Rightarrow> int \<Rightarrow> department_row option" where
  "find_department s i = find (\<lambda>r. d_id r = i) (departments s)"

text \<open>\<^verbatim>\<open>departmentRepository.GetByID\<close>.\<close>

definition GetByID :: "db \<Rightarrow> int \<Rightarrow> error + Department" where
  "GetByID s i =
     (if db_fault s (SelectDepartment i) then Inl ErrInternal
      else case find_department s i of
             None \<Rightarrow> Inl ErrDepartmentNotFound
           | Some r \<Rightarrow> Inr (scan_department r))"

text \<open>\<^verbatim>\<open>departmentRepository.ExistsByNameAndParent\<close>: the three \<^verbatim>\<open>Where\<close>
  clauses and \<^verbatim>\<open>count > 0\<close>.\<close>

definition matches_name_parent :: "string \<Rightarrow> int option \<Rightarrow> int option \<Rightarrow> department_row \<Rightarrow> bool" where
  "matches_name_parent name parentID excludeID r \<longleftrightarrow>
     d_name r = name \<and> d_parent_id r = parentID \<and>
     (case excludeID of None \<Rightarrow> True | Some x \<Rightarrow> d_id r \<noteq> x)"

definition ExistsByNameAndParent :: "db \<Rightarrow> string \<Rightarrow> int option \<Rightarrow> int option \<Rightarrow> error + bool" where
  "ExistsByNameAndParent s name parentID excludeID =
     (if db_fault s (CountByNameAndParent name parentID excludeID) then Inl ErrInternal
      else Inr (0 < length (filter (matches_name_parent name parentID excludeID) (departments s))))"

text \<open>
  \<^verbatim>\<open>departmentRepository.Create\<close>: the row gets the next sequence value and the
  current time; the primary key rejects an identifier that is already taken.
\<close>

definition Create_repo :: "db \<Rightarrow> Department \<Rightarrow> (error + Department) \<times> db" where
  "Create_repo s dept =
     (if db_fault s (InsertDepartment (Name dept) (ParentID dept)) then (Inl ErrInternal, s)
      else let i = departments_id_seq s;
               s1 = s\<lparr>departments_id_seq := i + 1\<rparr>
           in if i \<in> d_id ` set (departments s) then (Inl ErrInternal, s1)
              else let d = Department i (Name dept) (ParentID dept) (now s) (Employees dept) (Children dept)
                   in (Inr d,
                       s1\<lparr>departments := departments s @ [row_of d],
                          writes := writes s @ [InsertDepartment (Name dept) (ParentID dept)]\<rparr>))"

text \<open>
  \<^verbatim>\<open>departmentRepository.Update\<close> is GORM's \<^verbatim>\<open>Save\<close>: all columns of the
  row with the struct's primary key are overwritten; a key with no row is inserted.
  (The service only saves a struct that it has just read by its key, and the
  keys come from a sequence that starts at 1; the special case of \<^verbatim>\<open>Save\<close> for
  a struct with key 0 does not arise.)
\<close>

definition Update_repo :: "db \<Rightarrow> Department \<Rightarrow> error option \<times> db" where
  "Update_repo s dept =
     (if db_fault s (SaveDepartment (ID dept) (Name dept) (ParentID dept)) then (Some ErrInternal, s)
      else (None,
            s\<lparr>departments :=
                 (if ID dept \<in> d_id ` set (departments s)
                  then map (\<lambda>r. if d_id r = ID dept then row_of dept else r) (departments s)
                  else departments s @ [row_of dept]),
               writes := writes s @ [SaveDepartment (ID dept) (Name dept) (ParentID dept)]\<rparr>))"

text \<open>
  The referential actions of the schema: both \<^verbatim>\<open>departments.parent_id\<close> and
  \<^verbatim>\<open>employees.department_id\<close> are declared \<^verbatim>\<open>ON DELETE CASCADE\<close>. When the
  rows with identifiers \<open>gone\<close> have just been deleted, the database deletes
  the employees and the departments that reference them, and so on from the
  departments deleted that way.
\<close>

function on_delete_cascade ::
  "int list \<Rightarrow> department_row list \<Rightarrow> Employee list \<Rightarrow> department_row list \<times> Employee list" where
  "on_delete_cascade gone ds es =
     (let es' = filter (\<lambda>e. e_DepartmentID e \<notin> set gone) es;
          refs = filter (\<lambda>r. d_parent_id r \<in> Some ` set gone) ds
      in if refs = [] then (ds, es')
         else on_delete_cascade (map d_id refs)
                (filter (\<lambda>r. d_parent_id r \<notin> Some ` set gone) ds) es')"
  by pat_completeness auto
termination
proof (relation "measure (\<lambda>(gone, ds, es). length ds)")
  show "wf (measure (\<lambda>(gone, ds, es). length ds))" by simp
next
  fix gone :: "int list" and ds :: "department_row list" and es es' :: "Employee list"
    and refs :: "department_row list"
  assume refs: "refs = filter (\<lambda>r. d_parent_id r \<in> Some ` set gone) ds" and ne: "refs \<noteq> []"
  from refs ne obtain r where "r \<in> set ds" "d_parent_id r \<in> Some ` set gone"
    by (metis (mono_tags, lifting) filter_False)
  then have "length (filter (\<lambda>r. d_parent_id r \<notin> Some ` set gone) ds) < length ds"
    by (metis (mono_tags, lifting) length_filter_less)
  then show "((map d_id refs, filter (\<lambda>r. d_parent_id r \<notin> Some ` set gone) ds, es'), (gone, ds, es))
          \<in> measure (\<lambda>(gone, ds, es). length ds)"
    by simp
qed

declare on_delete_cascade.simps [simp del]

text \<open>
  \<^verbatim>\<open>departmentRepository.Delete\<close>: one \<^verbatim>\<open>DELETE\<close> by primary key; no row
  affected is \<open>ErrDepartmentNotFound\<close>. What else disappears is the work of the
  referential actions.
\<close>

definition Delete_repo :: "db \<Rightarrow> int \<Rightarrow> error option \<times> db" where
  "Delete_repo s i =
     (if db_fault s (DeleteDepartment i) then (Some ErrInternal, s)
      else if filter (\<lambda>r. d_id r = i) (departments s) = [] then (Some ErrDepartmentNotFound, s)
      else let (ds, es) = on_delete_cascade [i] (filter (\<lambda>r. d_id r \<noteq> i) (departments s)) (employees s)
           in (None, s\<lparr>departments := ds, employees := es, writes := writes s @ [DeleteDepartment i]\<rparr>))"

text \<open>\<^verbatim>\<open>departmentRepository.DeleteCascade\<close>.\<close>

definition DeleteCascade :: "db \<Rightarrow> int \<Rightarrow> error option \<times> db" where
  "DeleteCascade s i = Delete_repo s i"

text \<open>
  \<^verbatim>\<open>departmentRepository.GetAllDescendantIDs\<close> runs one recursive query,
  \<^verbatim>\<open>WITH RECURSIVE descendants AS (SELECT id FROM departments WHERE parent_id = $1
  UNION ALL SELECT d.id FROM departments d INNER JOIN descendants ds ON d.parent_id = ds.id)\<close>.
  The database evaluates it with a working table: the rows of the last round are
  joined with \<^verbatim>\<open>departments\<close>, the matches are added to the result
  (\<^verbatim>\<open>UNION ALL\<close> keeps duplicates) and become the next working table, until a
  round finds nothing. A query that never reaches an empty round never answers:
  that is the value \<open>None\<close>.
\<close>

definition children_ids :: "department_row list \<Rightarrow> int \<Rightarrow> int list" where
  "children_ids ds p = map d_id (filter (\<lambda>r. d_parent_id r = Some p) ds)"

definition join_children :: "department_row list \<Rightarrow> int list \<Rightarrow> int list" where
  "join_children ds work = concat (map (children_ids ds) work)"

partial_function (option) descendants_cte ::
  "department_row list \<Rightarrow> int list \<Rightarrow> int list \<Rightarrow> int list option" where
  "descendants_cte ds acc work =
     (if work = [] then Some acc
      else descendants_cte ds (acc @ work) (join_children ds work))"

declare descendants_cte.simps [code]

definition GetAllDescendantIDs :: "db \<Rightarrow> int \<Rightarrow> (error + int list) option" where
  "GetAllDescendantIDs s i =
     (if db_fault s (SelectDescendants i) then Some (Inl ErrInternal)
      else map_option Inr (descendants_cte (departments s) [] (children_ids (departments s) i)))"

text \<open>\<^verbatim>\<open>departmentRepository.IsDescendant\<close>: a search through that list.\<close>

definition IsDescendant :: "db \<Rightarrow> int \<Rightarrow> int \<Rightarrow> (error + bool) option" where
  "IsDescendant s ancestorID descendantID =
     (case GetAllDescendantIDs s ancestorID of
        None \<Rightarrow> None
      | Some (Inl e) \<Rightarrow> Some (Inl e)
      | Some (Inr descendants) \<Rightarrow> Some (Inr (descendantID \<in> set descendants)))"

text \<open>
  \<^verbatim>\<open>Preload("Employees", Order("created_at ASC"))\<close>: one more query for the
  employees of the departments just read, in ascending creation time; every
  department gets its own employees in the order of that result.
\<close>

definition preload_employees :: "db \<Rightarrow> int list \<Rightarrow> Employee list" where
  "preload_employees s ids =
     sort_key e_CreatedAt (filter (\<lambda>e. e_DepartmentID e \<in> set ids) (employees s))"

definition attach_employees :: "Employee list \<Rightarrow> Department \<Rightarrow> Department" where
  "attach_employees es d =
     Department (ID d) (Name d) (ParentID d) (CreatedAt d)
       (filter (\<lambda>e. e_DepartmentID e = ID d) es) (Children d)"

text \<open>The query of \<^verbatim>\<open>loadChildren\<close>: \<^verbatim>\<open>Where("parent_id = ?", dept.ID)\<close>, with
  the preload when employees are wanted, then \<^verbatim>\<open>Find(&children)\<close>.\<close>

definition find_children :: "db \<Rightarrow> int \<Rightarrow> bool \<Rightarrow> error + Department list" where
  "find_children s parent includeEmployees =
     (if db_fault s (SelectChildren parent) then Inl ErrInternal
      else let rows = filter (\<lambda>r. d_parent_id r = Some parent) (departments s);
               children = map scan_department rows
           in if includeEmployees \<and> rows \<noteq> []
              then (if db_fault s (SelectEmployeesOf (map d_id rows)) then Inl ErrInternal
                    else Inr (map (attach_employees (preload_employees s (map d_id rows))) children))
              else Inr children)"

text \<open>A loop that returns at the first error.\<close>

fun collect :: "(error + 'a) list \<Rightarrow> error + 'a list" where
  "collect [] = Inr []"
| "collect (Inl e # rs) = Inl e"
| "collect (Inr x # rs) = (case collect rs of Inl e \<Rightarrow> Inl e | Inr xs \<Rightarrow> Inr (x # xs))"

text \<open>\<^verbatim>\<open>departmentRepository.loadChildren\<close>.\<close>

function loadChildren :: "db \<Rightarrow> Department \<Rightarrow> int \<Rightarrow> bool \<Rightarrow> error + Department" where
  "loadChildren s dept depth includeEmployees =
     (if depth \<le> 0 then Inr dept
      else case find_children s (ID dept) includeEmployees of
             Inl e \<Rightarrow> Inl e
           | Inr children \<Rightarrow>
               (case collect (map (\<lambda>c. loadChildren s c (depth - 1) includeEmployees) children) of
                  Inl e \<Rightarrow> Inl e
                | Inr loaded \<Rightarrow>
                    Inr (Department (ID dept) (Name dept) (ParentID dept) (CreatedAt dept)
                           (Employees dept) loaded)))"
  by pat_completeness auto
termination
  by (relation "measure (\<lambda>(s, dept, depth, inc). nat depth)") auto

declare loadChildren.simps [simp del]

text \<open>\<^verbatim>\<open>departmentRepository.GetByIDWithChildren\<close>.\<close>

definition GetByIDWithChildren :: "db \<Rightarrow> int \<Rightarrow> int \<Rightarrow> bool \<Rightarrow> error + Department" where
  "GetByIDWithChildren s i depth includeEmployees =
     (if db_fault s (SelectDepartment i) then Inl ErrInternal
      else case find_department s i of
             None \<Rightarrow> Inl ErrDepartmentNotFound
           | Some r \<Rightarrow>
               (if includeEmployees \<and> db_fault s (SelectEmployeesOf [i]) then Inl ErrInternal
                else let dept = (if includeEmployees
                                 then attach_employees (preload_employees s [i]) (scan_department r)
                                 else scan_department r)
                     in if 0 < depth then loadChildren s dept depth includeEmployees
                        else Inr dept))"

section \<open>Employee repository\<close>

text \<open>\<^verbatim>\<open>employeeRepository.ReassignToDepartment\<close>: one \<^verbatim>\<open>UPDATE\<close> of the
  owning department of every employee of \<open>fromDeptID\<close>.\<close>

definition ReassignToDepartment :: "db \<Rightarrow> int \<Rightarrow> int \<Rightarrow> error option \<times> db" where
  "ReassignToDepartment s fromDeptID toDeptID =
     (if db_fault s (UpdateEmployeesDepartment fromDeptID toDeptID) then (Some ErrInternal, s)
      else (None,
            s\<lparr>employees :=
                 map (\<lambda>e. if e_DepartmentID e = fromDeptID then e\<lparr>e_DepartmentID := toDeptID\<rparr> else e)
                   (employees s),
               writes := writes s @ [UpdateEmployeesDepartment fromDeptID toDeptID]\<rparr>))"

section \<open>Department service\<close>

text \<open>
  \<^verbatim>\<open>strings.TrimSpace\<close> on a byte string cuts the leading and the trailing
  white space as \<^verbatim>\<open>unicode.IsSpace\<close> defines it. These are the UTF-8 encodings of
  the white-space code points: tab, line feed, vertical tab, form feed,
  carriage return, space, U+0085, U+00A0, U+1680, U+2000 to U+200A, U+2028,
  U+2029, U+202F, U+205F and U+3000. A byte sequence that is no such encoding
  (another character, or invalid UTF-8) stops the cut, from the front as from
  the back.
\<close>

definition space_runes :: "string list" where
  "space_runes =
     [[CHR 0x09], [CHR 0x0A], [CHR 0x0B], [CHR 0x0C], [CHR 0x0D], [CHR 0x20],
      [CHR 0xC2, CHR 0x85], [CHR 0xC2, CHR 0xA0],
      [CHR 0xE1, CHR 0x9A, CHR 0x80],
      [CHR 0xE2, CHR 0x80, CHR 0x80], [CHR 0xE2, CHR 0x80, CHR 0x81], [CHR 0xE2, CHR 0x80, CHR 0x82],
      [CHR 0xE2, CHR 0x80, CHR 0x83], [CHR 0xE2, CHR 0x80, CHR 0x84], [CHR 0xE2, CHR 0x80, CHR 0x85],
      [CHR 0xE2, CHR 0x80, CHR 0x86], [CHR 0xE2, CHR 0x80, CHR 0x87], [CHR 0xE2, CHR 0x80, CHR 0x88],
      [CHR 0xE2, CHR 0x80, CHR 0x89], [CHR 0xE2, CHR 0x80, CHR 0x8A],
      [CHR 0xE2, CHR 0x80, CHR 0xA8], [CHR 0xE2, CHR 0x80, CHR 0xA9], [CHR 0xE2, CHR 0x80, CHR 0xAF],
      [CHR 0xE2, CHR 0x81, CHR 0x9F],
      [CHR 0xE3, CHR 0x80, CHR 0x80]]"

definition leading_space :: "string list \<Rightarrow> string \<Rightarrow> string option" where
  "leading_space runes str = find (\<lambda>p. p \<noteq> [] \<and> take (length p) str = p) runes"

function trim_left :: "string list \<Rightarrow> string \<Rightarrow> string" where
  "trim_left runes str =
     (case leading_space runes str of
        None \<Rightarrow> str
      | Some p \<Rightarrow> trim_left runes (drop (length p) str))"
  by pat_completeness auto
termination
proof (relation "measure (\<lambda>(runes, str). length str)")
  show "wf (measure (\<lambda>(runes, str). length str))" by simp
next
  fix runes :: "string list" and str p :: string
  assume "leading_space runes str = Some p"
  then have "p \<noteq> []" and "take (length p) str = p"
    by (auto simp: leading_space_def dest: find_Some_iff[THEN iffD1])
  then have "str \<noteq> []" by auto
  with \<open>p \<noteq> []\<close> show "((runes, drop (length p) str), (runes, str)) \<in> measure (\<lambda>(runes, str). length str)"
    by simp
qed

declare trim_left.simps [simp del]

text \<open>The trailing white space is the leading one of the reversed string, with
  the encodings reversed.\<close>

definition TrimSpace :: "string \<Rightarrow> string" where
  "TrimSpace str = rev (trim_left (map rev space_runes) (rev (trim_left space_runes str)))"

record CreateDepartmentRequest =
  crt_Name :: string
  crt_ParentID :: "int option"

record UpdateDepartmentRequest =
  upd_Name :: "string option"
  upd_ParentID :: "int option"

record DeleteDepartmentQuery =
  Mode :: string
  ReassignToDepartmentID :: "int option"


text \<open>\<^verbatim>\<open>departmentService.Create\<close>.\<close>

definition Create :: "db \<Rightarrow> CreateDepartmentRequest \<Rightarrow> (error + Department) \<times> db" where
  "Create s req =
     (let name = TrimSpace (crt_Name req)
      in case (case crt_ParentID req of
                 None \<Rightarrow> Inr ()
               | Some p \<Rightarrow> (case GetByID s p of Inl e \<Rightarrow> Inl e | Inr _ \<Rightarrow> Inr ())) of
           Inl e \<Rightarrow> (Inl e, s)
         | Inr _ \<Rightarrow>
             (case ExistsByNameAndParent s name (crt_ParentID req) None of
                Inl e \<Rightarrow> (Inl e, s)
              | Inr exists \<Rightarrow>
                  if exists then (Inl ErrDuplicateDepartmentName, s)
                  else Create_repo s (Department 0 name (crt_ParentID req) 0 [] [])))"


text \<open>
  \<^verbatim>\<open>departmentService.Update\<close>, in the order of the source: the block for
  \<^verbatim>\<open>req.Name\<close> (lines 76 to 95), the block for \<^verbatim>\<open>req.ParentID\<close> (lines 98 to
  133), then the one write. Both blocks only change the local struct.
\<close>

definition Update_name :: "db \<Rightarrow> int \<Rightarrow> UpdateDepartmentRequest \<Rightarrow> Department \<Rightarrow> error + Department" where
  "Update_name s i req dept =
     (case upd_Name req of
        None \<Rightarrow> Inr dept
      | Some n \<Rightarrow>
          (let name = TrimSpace n;
               parentID = (case upd_ParentID req of None \<Rightarrow> ParentID dept | Some p \<Rightarrow> Some p)
           in case ExistsByNameAndParent s name parentID (Some i) of
                Inl e \<Rightarrow> Inl e
              | Inr exists \<Rightarrow>
                  if exists then Inl ErrDuplicateDepartmentName
                  else Inr (Department (ID dept) name (ParentID dept) (CreatedAt dept)
                              (Employees dept) (Children dept))))"

definition Update_parent ::
  "db \<Rightarrow> int \<Rightarrow> UpdateDepartmentRequest \<Rightarrow> Department \<Rightarrow> (error + Department) option" where
  "Update_parent s i req dept =
     (case upd_ParentID req of
        None \<Rightarrow> Some (Inr dept)
      | Some newParentID \<Rightarrow>
          if newParentID = i then Some (Inl ErrSelfReference)
          else (case GetByID s newParentID of
                  Inl e \<Rightarrow> Some (Inl e)
                | Inr _ \<Rightarrow>
                    (case IsDescendant s i newParentID of
                       None \<Rightarrow> None
                     | Some (Inl e) \<Rightarrow> Some (Inl e)
                     | Some (Inr isDescendant) \<Rightarrow>
                         if isDescendant then Some (Inl ErrCyclicReference)
                         else (case (if upd_Name req = None
                                     then (case ExistsByNameAndParent s (Name dept) (Some newParentID) (Some i) of
                                             Inl e \<Rightarrow> Inl e
                                           | Inr exists \<Rightarrow>
                                               if exists then Inl ErrDuplicateDepartmentName else Inr ())
                                     else Inr ()) of
                                 Inl e \<Rightarrow> Some (Inl e)
                               | Inr _ \<Rightarrow>
                                   Some (Inr (Department (ID dept) (Name dept) (Some newParentID)
                                                (CreatedAt dept) (Employees dept) (Children dept)))))))"

definition Update :: "db \<Rightarrow> int \<Rightarrow> UpdateDepartmentRequest \<Rightarrow> ((error + Department) \<times> db) option" where
  "Update s i req =
     (case GetByID s i of
        Inl e \<Rightarrow> Some (Inl e, s)
      | Inr dept \<Rightarrow>
          (case Update_name s i req dept of
             Inl e \<Rightarrow> Some (Inl e, s)
           | Inr dept1 \<Rightarrow>
               (case Update_parent s i req dept1 of
                  None \<Rightarrow> None
                | Some (Inl e) \<Rightarrow> Some (Inl e, s)
                | Some (Inr dept2) \<Rightarrow>
                    (case Update_repo s dept2 of
                       (Some e, s') \<Rightarrow> Some (Inl e, s')
                     | (None, s') \<Rightarrow> Some (Inr dept2, s')))))"

text \<open>The loop of \<^verbatim>\<open>Delete\<close> over the descendants (lines 188 to 192).\<close>

fun reassign_each :: "db \<Rightarrow> int list \<Rightarrow> int \<Rightarrow> error option \<times> db" where
  "reassign_each s [] targetID = (None, s)"
| "reassign_each s (descID # rest) targetID =
     (case ReassignToDepartment s descID targetID of
        (Some e, s') \<Rightarrow> (Some e, s')
      | (None, s') \<Rightarrow> reassign_each s' rest targetID)"

text \<open>\<^verbatim>\<open>departmentService.Delete\<close>. The result \<open>None\<close> of the option is a call
  that never returns; the error \<open>None\<close> inside is Go's \<^verbatim>\<open>nil\<close>. The second
  \<^verbatim>\<open>GetByID\<close> of the source (line 181) is a read whose result and error are
  both dropped; it is left out.\<close>

definition Delete :: "db \<Rightarrow> int \<Rightarrow> DeleteDepartmentQuery \<Rightarrow> (error option \<times> db) option" where
  "Delete s i query =
     (case GetByID s i of
        Inl e \<Rightarrow> Some (Some e, s)
      | Inr _ \<Rightarrow>
          if Mode query = ''cascade'' then Some (DeleteCascade s i)
          else if Mode query = ''reassign'' then
            (case ReassignToDepartmentID query of
               None \<Rightarrow> Some (Some ErrReassignTargetRequired, s)
             | Some targetID \<Rightarrow>
                 if targetID = i then Some (Some ErrCannotReassignToSelf, s)
                 else (case GetByID s targetID of
                         Inl e \<Rightarrow>
                           Some (Some (if e = ErrDepartmentNotFound then ErrReassignTargetNotFound else e), s)
                       | Inr _ \<Rightarrow>
                           (case ReassignToDepartment s i targetID of
                              (Some e, s1) \<Rightarrow> Some (Some e, s1)
                            | (None, s1) \<Rightarrow>
                                (case GetAllDescendantIDs s1 i of
                                   None \<Rightarrow> None
                                 | Some (Inl e) \<Rightarrow> Some (Some e, s1)
                                 | Some (Inr descendants) \<Rightarrow>
                                     (case reassign_each s1 descendants targetID of
                                        (Some e, s2) \<Rightarrow> Some (Some e, s2)
                                      | (None, s2) \<Rightarrow> Some (DeleteCascade s2 i))))))
          else Some (Some ErrInvalidDeleteMode, s))"

section \<open>Department handler\<close>








section \<open>Properties of a store\<close>

text \<open>A store whose server answers every statement.\<close>

definition healthy :: "db \<Rightarrow> bool" where
  "healthy s \<longleftrightarrow> (\<forall>q. \<not> db_fault s q)"

text \<open>The edges from a parent to its children, the descendants of a
  department and its subtree.\<close>

definition parent_edges :: "department_row list \<Rightarrow> (int \<times> int) set" where
  "parent_edges ds = {(p, c). \<exists>r \<in> set ds. d_parent_id r = Some p \<and> d_id r = c}"

definition descendants_of :: "department_row list \<Rightarrow> int \<Rightarrow> int set" where
  "descendants_of ds u = {c. (u, c) \<in> (parent_edges ds)\<^sup>+}"

definition subtree_of :: "department_row list \<Rightarrow> int \<Rightarrow> int set" where
  "subtree_of ds u = insert u (descendants_of ds u)"

text \<open>
  Following parent references from \<open>u\<close> ends at a root within \<open>n\<close> rows. The
  store is \<open>rooted\<close> when identifiers are unique (the primary key) and the walk
  from every department ends at a root; a walk longer than the table would
  have met a row twice.
\<close>

fun climbs :: "department_row list \<Rightarrow> nat \<Rightarrow> int \<Rightarrow> bool" where
  "climbs ds 0 u = False"
| "climbs ds (Suc n) u =
     (case find (\<lambda>r. d_id r = u) ds of
        None \<Rightarrow> False
      | Some r \<Rightarrow> (case d_parent_id r of None \<Rightarrow> True | Some p \<Rightarrow> climbs ds n p))"

definition rooted :: "db \<Rightarrow> bool" where
  "rooted s \<longleftrightarrow>
     distinct (map d_id (departments s)) \<and>
     (\<forall>r \<in> set (departments s). climbs (departments s) (length (departments s)) (d_id r))"

text \<open>Another department than \<open>self\<close> has this name under this parent.\<close>

definition name_taken :: "db \<Rightarrow> string \<Rightarrow> int option \<Rightarrow> int \<Rightarrow> bool" where
  "name_taken s name parent self \<longleftrightarrow>
     (\<exists>r \<in> set (departments s). d_name r = name \<and> d_parent_id r = parent \<and> d_id r \<noteq> self)"

text \<open>What a projection attaches to a department: its employees in ascending
  creation time, none missing and none twice, and its child departments.\<close>

definition members_attached :: "db \<Rightarrow> Department \<Rightarrow> bool" where
  "members_attached s d \<longleftrightarrow>
     sorted (map e_CreatedAt (Employees d)) \<and>
     mset (Employees d) = mset (filter (\<lambda>e. e_DepartmentID e = ID d) (employees s))"

definition children_attached :: "db \<Rightarrow> Department \<Rightarrow> bool" where
  "children_attached s d \<longleftrightarrow>
     map row_of (Children d) = filter (\<lambda>r. d_parent_id r = Some (ID d)) (departments s)"

text \<open>The children that one round of \<^verbatim>\<open>loadChildren\<close> reads from a healthy
  store, with their employees.\<close>

definition loaded_children :: "db \<Rightarrow> int \<Rightarrow> Department list" where
  "loaded_children s p =
     (let rows = filter (\<lambda>r. d_parent_id r = Some p) (departments s)
      in map (attach_employees (preload_employees s (map d_id rows))) (map scan_department rows))"

text \<open>The number of rows on the way from \<open>u\<close> up to its root.\<close>

definition level :: "department_row list \<Rightarrow> int \<Rightarrow> nat" where
  "level ds u = (LEAST n. climbs ds n u)"

text \<open>
  The departments whose employees a \<^verbatim>\<open>Delete\<close> with mode \<^verbatim>\<open>reassign\<close> has moved
  to the target \<open>t\<close> when it runs past its checks and its first statement and
  then fails: the department itself, and its descendants in the order of the
  query up to the first one whose reassignment the server refuses.
\<close>

definition reassigned_before_failure :: "db \<Rightarrow> int \<Rightarrow> int \<Rightarrow> int list" where
  "reassigned_before_failure s i t =
     i # (case GetAllDescendantIDs s i of
            Some (Inr res) \<Rightarrow> takeWhile (\<lambda>d. \<not> db_fault s (UpdateEmployeesDepartment d t)) res
          | _ \<Rightarrow> [])"

section \<open>Example stores\<close>

definition mk_dept :: "int \<Rightarrow> string \<Rightarrow> int option \<Rightarrow> department_row" where
  "mk_dept i n p = \<lparr>d_id = i, d_name = n, d_parent_id = p, d_created_at = 0\<rparr>"

definition mk_emp :: "int \<Rightarrow> int \<Rightarrow> nat \<Rightarrow> Employee" where
  "mk_emp i d t =
     \<lparr>e_ID = i, e_DepartmentID = d, e_FullName = ''N'', e_Position = ''P'',
      e_HiredAt = None, e_CreatedAt = t\<rparr>"

text \<open>Company (1) with IT (2) and HR (5); Backend (3) under IT; API (4) under
  Backend.\<close>

definition org_db :: db where
  "org_db =
     \<lparr>departments =
        [mk_dept 1 ''Company'' None, mk_dept 2 ''IT'' (Some 1), mk_dept 3 ''Backend'' (Some 2),
         mk_dept 4 ''API'' (Some 3), mk_dept 5 ''HR'' (Some 1)],
      employees = [mk_emp 10 1 7, mk_emp 11 1 3, mk_emp 12 2 5, mk_emp 13 3 1, mk_emp 14 4 2],
      departments_id_seq = 6, now = 100, db_fault = (\<lambda>q. False), writes = []\<rparr>"

text \<open>A corrupted store: departments 1 and 2 are each other's parent.\<close>

definition cyclic_db :: db where
  "cyclic_db =
     \<lparr>departments = [mk_dept 1 ''A'' (Some 2), mk_dept 2 ''B'' (Some 1)],
      employees = [], departments_id_seq = 3, now = 100, db_fault = (\<lambda>q. False), writes = []\<rparr>"

text \<open>The example store on a server that fails the reassignment of the
  employees of Backend (3) to HR (5).\<close>

definition flaky_db :: db where
  "flaky_db = org_db\<lparr>db_fault := (\<lambda>q. q = UpdateEmployeesDepartment 3 5)\<rparr>"

section \<open>Reading a department with its subtree\<close>







lemma collect_all_Inr: "collect (map Inr xs) = Inr xs"
  by (induction xs) simp_all

lemma collect_map_Inr:
  "(\<And>x. x \<in> set xs \<Longrightarrow> f x = Inr (g x)) \<Longrightarrow> collect (map f xs) = Inr (map g xs)"
  by (induction xs) simp_all

lemma loadChildren_zero: "loadChildren s dept 0 inc = Inr dept"
  by (simp add: loadChildren.simps)

lemma find_children_healthy:
  "healthy s \<Longrightarrow> find_children s p True = Inr (loaded_children s p)"
  by (auto simp: find_children_def healthy_def loaded_children_def Let_def)

lemma loadChildren_one:
  "healthy s \<Longrightarrow> loadChildren s dept 1 True =
     Inr (Department (ID dept) (Name dept) (ParentID dept) (CreatedAt dept) (Employees dept)
            (loaded_children s (ID dept)))"
  by (simp add: loadChildren.simps[of s dept 1] find_children_healthy loadChildren_zero collect_all_Inr)

lemma loadChildren_two:
  "healthy s \<Longrightarrow> loadChildren s dept 2 True =
     Inr (Department (ID dept) (Name dept) (ParentID dept) (CreatedAt dept) (Employees dept)
            (map (\<lambda>c. Department (ID c) (Name c) (ParentID c) (CreatedAt c) (Employees c)
                        (loaded_children s (ID c)))
               (loaded_children s (ID dept))))"
  by (simp add: loadChildren.simps[of s dept 2] find_children_healthy loadChildren_one
      collect_map_Inr[where g = "\<lambda>c. Department (ID c) (Name c) (ParentID c) (CreatedAt c) (Employees c)
                        (loaded_children s (ID c))"])

lemma row_of_scan [simp]: "row_of (scan_department r) = r"
  by (simp add: row_of_def scan_department_def)

lemma row_of_attach [simp]: "row_of (attach_employees es d) = row_of d"
  by (simp add: row_of_def attach_employees_def)

lemma ID_row_of [simp]: "d_id (row_of d) = ID d"
  by (simp add: row_of_def)

lemma loaded_children_rows:
  "map row_of (loaded_children s p) = filter (\<lambda>r. d_parent_id r = Some p) (departments s)"
  by (simp add: loaded_children_def Let_def comp_def)

lemma attach_preload_employees:
  assumes "ID d \<in> set ids"
  shows "Employees (attach_employees (preload_employees s ids) d) =
           sort_key e_CreatedAt (filter (\<lambda>e. e_DepartmentID e = ID d) (employees s))"
proof -
  have "filter (\<lambda>e. e_DepartmentID e \<in> set ids \<and> e_DepartmentID e = ID d) (employees s) =
        filter (\<lambda>e. e_DepartmentID e = ID d) (employees s)"
    using assms by (intro filter_cong) auto
  then show ?thesis
    by (simp add: attach_employees_def preload_employees_def filter_sort)
qed

lemma attach_preload_members:
  "ID d \<in> set ids \<Longrightarrow> members_attached s (attach_employees (preload_employees s ids) d)"
  unfolding members_attached_def attach_preload_employees
  by (simp add: attach_employees_def)

lemma loaded_children_members:
  "c \<in> set (loaded_children s p) \<Longrightarrow> members_attached s c \<and> Children c = []"
  by (auto simp: loaded_children_def Let_def scan_department_def intro!: attach_preload_members)
    (auto simp: attach_employees_def)

text \<open>
  C9. On a healthy store, reading an existing department with depth 2 and
  employees gives the department itself, its children and its grandchildren as
  nested departments; the grandchildren carry no children; and every
  department of the three levels carries exactly its own employees in ascending
  creation time.
\<close>

theorem projection_depth_two:
  assumes "healthy s" and "find_department s i = Some r"
  shows "\<exists>root. GetByIDWithChildren s i 2 True = Inr root \<and> row_of root = r
           \<and> members_attached s root \<and> children_attached s root
           \<and> (\<forall>c \<in> set (Children root). members_attached s c \<and> children_attached s c
                \<and> (\<forall>g \<in> set (Children c). members_attached s g \<and> Children g = []))"
proof -
  let ?top = "attach_employees (preload_employees s [i]) (scan_department r)"
  let ?deepen = "\<lambda>c. Department (ID c) (Name c) (ParentID c) (CreatedAt c) (Employees c)
                        (loaded_children s (ID c))"
  let ?root = "Department (ID ?top) (Name ?top) (ParentID ?top) (CreatedAt ?top) (Employees ?top)
                 (map ?deepen (loaded_children s (ID ?top)))"
  have idr: "d_id r = i"
    using assms(2) by (auto simp: find_department_def dest: find_Some_iff[THEN iffD1])
  have run: "GetByIDWithChildren s i 2 True = Inr ?root"
    using assms by (simp add: GetByIDWithChildren_def loadChildren_two Let_def) (simp add: healthy_def)
  have row: "row_of ?root = r"
    by (simp add: row_of_def attach_employees_def scan_department_def)
  have top_members: "members_attached s ?top"
    by (rule attach_preload_members) (simp add: scan_department_def idr)
  have root_members: "members_attached s ?root"
    using top_members by (simp add: members_attached_def)
  have deepen_row: "row_of (?deepen c) = row_of c" for c
    by (simp add: row_of_def)
  have root_children: "children_attached s ?root"
    by (simp add: children_attached_def comp_def deepen_row loaded_children_rows)
  have below: "members_attached s c \<and> children_attached s c
                \<and> (\<forall>g \<in> set (Children c). members_attached s g \<and> Children g = [])"
    if "c \<in> set (Children ?root)" for c
  proof -
    from that obtain c0 where c0: "c0 \<in> set (loaded_children s (ID ?top))" and c: "c = ?deepen c0"
      by auto
    have "members_attached s c"
      using loaded_children_members[OF c0] by (simp add: c members_attached_def)
    moreover have "children_attached s c"
      by (simp add: c children_attached_def loaded_children_rows)
    moreover have "\<forall>g \<in> set (Children c). members_attached s g \<and> Children g = []"
      by (simp add: c loaded_children_members)
    ultimately show ?thesis by blast
  qed
  show ?thesis
    using run row root_members root_children below by blast
qed

lemma org_db_healthy: "healthy org_db"
  by (simp add: healthy_def org_db_def)

lemma org_db_tables:
  "departments org_db =
     [mk_dept 1 ''Company'' None, mk_dept 2 ''IT'' (Some 1), mk_dept 3 ''Backend'' (Some 2),
      mk_dept 4 ''API'' (Some 3), mk_dept 5 ''HR'' (Some 1)]"
  "employees org_db = [mk_emp 10 1 7, mk_emp 11 1 3, mk_emp 12 2 5, mk_emp 13 3 1, mk_emp 14 4 2]"
  "db_fault org_db q = False"
  "writes org_db = []"
  by (simp_all add: org_db_def)

text \<open>The same on the example: API (4), the child of grandchild Backend (3),
  is left out, and the two employees of Company come oldest first.\<close>

lemma org_db_projection:
  "GetByIDWithChildren org_db 1 2 True =
     Inr (Department 1 ''Company'' None 0 [mk_emp 11 1 3, mk_emp 10 1 7]
            [Department 2 ''IT'' (Some 1) 0 [mk_emp 12 2 5]
               [Department 3 ''Backend'' (Some 2) 0 [mk_emp 13 3 1] []],
             Department 5 ''HR'' (Some 1) 0 [] []])"
  by (simp add: GetByIDWithChildren_def loadChildren_two org_db_healthy Let_def org_db_tables
      find_department_def mk_dept_def mk_emp_def loaded_children_def
      attach_employees_def preload_employees_def scan_department_def)

theorem projection_depth_two_witness:
  "healthy org_db \<and> find_department org_db 1 = Some (mk_dept 1 ''Company'' None)
   \<and> (\<exists>root. GetByIDWithChildren org_db 1 2 True = Inr root
         \<and> row_of root = mk_dept 1 ''Company'' None
         \<and> (\<forall>c \<in> set (Children root). \<forall>g \<in> set (Children c). Children g = []))"
proof -
  have f: "find_department org_db 1 = Some (mk_dept 1 ''Company'' None)"
    by (simp add: find_department_def org_db_def mk_dept_def)
  from projection_depth_two[OF org_db_healthy f] show ?thesis
    using org_db_healthy f by blast
qed

section \<open>The descendant query on a rooted store\<close>

lemma parent_edges_iff:
  "(p, c) \<in> parent_edges ds \<longleftrightarrow> (\<exists>r \<in> set ds. d_parent_id r = Some p \<and> d_id r = c)"
  by (simp add: parent_edges_def)

lemma set_children_ids: "set (children_ids ds p) = parent_edges ds `` {p}"
  by (auto simp: children_ids_def parent_edges_def)

lemma set_join_children: "set (join_children ds work) = parent_edges ds `` set work"
  by (auto simp: join_children_def set_children_ids)

lemma edge_child_is_row: "(p, c) \<in> parent_edges ds \<Longrightarrow> c \<in> d_id ` set ds"
  by (auto simp: parent_edges_def)

lemma climbs_mono: "climbs ds n u \<Longrightarrow> n \<le> m \<Longrightarrow> climbs ds m u"
proof (induction n arbitrary: m u)
  case 0
  then show ?case by simp
next
  case (Suc n)
  then obtain k where m: "m = Suc k" and "n \<le> k"
    by (cases m) auto
  with Suc show ?case
    by (auto split: option.splits)
qed

lemma find_by_id:
  "distinct (map d_id ds) \<Longrightarrow> r \<in> set ds \<Longrightarrow> find (\<lambda>x. d_id x = d_id r) ds = Some r"
  by (induction ds) (auto simp: image_iff)

lemma climbs_edge:
  assumes "distinct (map d_id ds)" and "(p, c) \<in> parent_edges ds" and "climbs ds n c"
  shows "\<exists>m. n = Suc m \<and> climbs ds m p"
proof -
  from assms(2) obtain r where r: "r \<in> set ds" "d_parent_id r = Some p" "d_id r = c"
    by (auto simp: parent_edges_def)
  then have f: "find (\<lambda>x. d_id x = c) ds = Some r"
    using find_by_id[OF assms(1) r(1)] by simp
  from assms(3) obtain m where "n = Suc m"
    by (cases n) auto
  with assms(3) f r show ?thesis by simp
qed

lemma level_edge:
  assumes "distinct (map d_id ds)" and "(p, c) \<in> parent_edges ds" and "climbs ds n c"
  shows "level ds p < level ds c"
proof -
  have "climbs ds (level ds c) c"
    unfolding level_def using assms(3) by (rule LeastI)
  from climbs_edge[OF assms(1,2) this] obtain m where m: "level ds c = Suc m" "climbs ds m p"
    by blast
  then have "level ds p \<le> m"
    unfolding level_def by (simp add: Least_le)
  with m show ?thesis by simp
qed

lemma rooted_climbs: "rooted s \<Longrightarrow> c \<in> d_id ` set (departments s) \<Longrightarrow>
   climbs (departments s) (length (departments s)) c"
  by (auto simp: rooted_def)

lemma rooted_level_edge:
  "rooted s \<Longrightarrow> (p, c) \<in> parent_edges (departments s) \<Longrightarrow>
   level (departments s) p < level (departments s) c"
  by (meson level_edge rooted_climbs edge_child_is_row rooted_def)

lemma rooted_level_trancl:
  assumes "rooted s" and "(x, y) \<in> (parent_edges (departments s))\<^sup>+"
  shows "level (departments s) x < level (departments s) y"
  using assms(2)
proof (induction rule: trancl_induct)
  case (base y)
  then show ?case by (rule rooted_level_edge[OF assms(1)])
next
  case (step y z)
  from rooted_level_edge[OF assms(1) step.hyps(2)] step.IH show ?case by simp
qed

lemma rooted_acyclic: "rooted s \<Longrightarrow> acyclic (parent_edges (departments s))"
  by (auto simp: acyclic_def dest: rooted_level_trancl)

lemma rooted_level_le:
  "rooted s \<Longrightarrow> c \<in> d_id ` set (departments s) \<Longrightarrow> level (departments s) c \<le> length (departments s)"
  unfolding level_def by (rule Least_le) (rule rooted_climbs)

lemma rtrancl_from_set:
  "{c. \<exists>w \<in> W. (w, c) \<in> E\<^sup>*} = W \<union> {c. \<exists>w \<in> E `` W. (w, c) \<in> E\<^sup>*}"
proof (intro set_eqI iffI)
  fix c assume "c \<in> {c. \<exists>w \<in> W. (w, c) \<in> E\<^sup>*}"
  then obtain w where w: "w \<in> W" "(w, c) \<in> E\<^sup>*" by blast
  from w(2) show "c \<in> W \<union> {c. \<exists>w \<in> E `` W. (w, c) \<in> E\<^sup>*}"
  proof (cases rule: converse_rtranclE)
    case base
    with w(1) show ?thesis by simp
  next
    case (step y)
    with w(1) show ?thesis by blast
  qed
next
  fix c assume "c \<in> W \<union> {c. \<exists>w \<in> E `` W. (w, c) \<in> E\<^sup>*}"
  then show "c \<in> {c. \<exists>w \<in> W. (w, c) \<in> E\<^sup>*}"
    by (auto intro: converse_rtrancl_into_rtrancl)
qed

lemma descendants_cte_total:
  assumes "rooted s"
    and "\<forall>w \<in> set work. w \<in> d_id ` set (departments s) \<and> k \<le> level (departments s) w"
  shows "\<exists>res. descendants_cte (departments s) acc work = Some res \<and>
           set res = set acc \<union> {c. \<exists>w \<in> set work. (w, c) \<in> (parent_edges (departments s))\<^sup>*}"
  using assms(2)
proof (induction "Suc (length (departments s)) - k" arbitrary: k acc work)
  case 0
  have "work = []"
  proof (rule ccontr)
    assume "work \<noteq> []"
    then obtain w where "w \<in> set work" by (cases work) auto
    with 0 rooted_level_le[OF assms(1), of w] show False by fastforce
  qed
  then show ?case
    by (subst descendants_cte.simps) simp
next
  case (Suc n)
  let ?ds = "departments s"
  show ?case
  proof (cases "work = []")
    case True
    then show ?thesis by (subst descendants_cte.simps) simp
  next
    case False
    have next_ok: "\<forall>w \<in> set (join_children ?ds work). w \<in> d_id ` set ?ds \<and> Suc k \<le> level ?ds w"
    proof
      fix c assume "c \<in> set (join_children ?ds work)"
      then obtain w where w: "w \<in> set work" "(w, c) \<in> parent_edges ?ds"
        by (auto simp: set_join_children)
      from rooted_level_edge[OF assms(1) w(2)] Suc.prems w(1)
      show "c \<in> d_id ` set ?ds \<and> Suc k \<le> level ?ds c"
        using edge_child_is_row[OF w(2)] by fastforce
    qed
    have "n = Suc (length ?ds) - Suc k" using Suc.hyps(2) by simp
    from Suc.hyps(1)[OF this next_ok, of "acc @ work"]
    obtain res where res: "descendants_cte ?ds (acc @ work) (join_children ?ds work) = Some res"
      "set res = set (acc @ work) \<union>
         {c. \<exists>w \<in> set (join_children ?ds work). (w, c) \<in> (parent_edges ?ds)\<^sup>*}"
      by blast
    have "descendants_cte ?ds acc work = Some res"
      using False res(1) by (subst descendants_cte.simps) simp
    moreover have "set res = set acc \<union> {c. \<exists>w \<in> set work. (w, c) \<in> (parent_edges ?ds)\<^sup>*}"
      unfolding res(2) set_join_children
      using rtrancl_from_set[of "set work" "parent_edges ?ds"] by auto
    ultimately show ?thesis by blast
  qed
qed

lemma GetAllDescendantIDs_rooted:
  assumes "rooted s" and "\<not> db_fault s (SelectDescendants i)"
  shows "\<exists>res. GetAllDescendantIDs s i = Some (Inr res) \<and> set res = descendants_of (departments s) i"
proof -
  let ?ds = "departments s"
  have "\<forall>w \<in> set (children_ids ?ds i). w \<in> d_id ` set ?ds \<and> 0 \<le> level ?ds w"
    by (auto simp: set_children_ids dest: edge_child_is_row)
  from descendants_cte_total[OF assms(1) this, of "[]"]
  obtain res where res: "descendants_cte ?ds [] (children_ids ?ds i) = Some res"
    "set res = {c. \<exists>w \<in> set (children_ids ?ds i). (w, c) \<in> (parent_edges ?ds)\<^sup>*}"
    by auto
  have "set res = descendants_of ?ds i"
    unfolding res(2) descendants_of_def set_children_ids
    by (auto simp: trancl_unfold_left)
  with res(1) assms(2) show ?thesis
    by (simp add: GetAllDescendantIDs_def)
qed

section \<open>Update: move and rename\<close>

lemma GetByID_healthy:
  "healthy s \<Longrightarrow>
   GetByID s i = (case find_department s i of
                    None \<Rightarrow> Inl ErrDepartmentNotFound
                  | Some r \<Rightarrow> Inr (scan_department r))"
  by (simp add: GetByID_def healthy_def)

lemma ExistsByNameAndParent_healthy:
  "healthy s \<Longrightarrow> ExistsByNameAndParent s name parent (Some self) = Inr (name_taken s name parent self)"
  by (auto simp: ExistsByNameAndParent_def healthy_def name_taken_def matches_name_parent_def
      filter_empty_conv)

lemma find_department_row:
  "c \<in> d_id ` set (departments s) \<Longrightarrow> \<exists>r. find_department s c = Some r"
  by (cases "find_department s c") (auto simp: find_department_def find_None_iff)

lemma IsDescendant_rooted:
  assumes "rooted s" and "healthy s"
  shows "IsDescendant s a d = Some (Inr (d \<in> descendants_of (departments s) a))"
proof -
  from assms(2) have "\<not> db_fault s (SelectDescendants a)" by (simp add: healthy_def)
  from GetAllDescendantIDs_rooted[OF assms(1) this] show ?thesis
    by (auto simp: IsDescendant_def)
qed

lemma descendant_is_row:
  "d \<in> descendants_of ds a \<Longrightarrow> d \<in> d_id ` set ds"
  unfolding descendants_of_def
  by (auto elim: tranclE dest: edge_child_is_row)

lemma descendant_not_self:
  "rooted s \<Longrightarrow> p \<in> descendants_of (departments s) u \<Longrightarrow> p \<noteq> u"
  using rooted_level_trancl[of s u p] by (auto simp: descendants_of_def)

text \<open>
  C5 (as the code has it). On a healthy store, an update of an existing
  department \<open>u\<close> that names \<open>u\<close> itself as the new parent fails with
  \<open>ErrSelfReference\<close>, and on a rooted store one that names a descendant of \<open>u\<close>
  fails with \<open>ErrCyclicReference\<close>, unless the request also carries a name that
  another department has under that new parent: the name is checked first, and
  the update then fails with \<open>ErrDuplicateDepartmentName\<close>. In every one of
  these cases the store is the one before the call.
\<close>

theorem move_under_self_or_descendant_fails:
  assumes "healthy s" and "find_department s u = Some r" and "upd_ParentID req = Some p"
  shows "(p = u \<longrightarrow>
            Update s u req =
              Some (Inl (if (case upd_Name req of None \<Rightarrow> False
                                | Some n \<Rightarrow> name_taken s (TrimSpace n) (Some p) u)
                         then ErrDuplicateDepartmentName else ErrSelfReference), s)) \<and>
         (rooted s \<and> p \<in> descendants_of (departments s) u \<longrightarrow>
            Update s u req =
              Some (Inl (if (case upd_Name req of None \<Rightarrow> False
                                | Some n \<Rightarrow> name_taken s (TrimSpace n) (Some p) u)
                         then ErrDuplicateDepartmentName else ErrCyclicReference), s))"
proof (cases "case upd_Name req of None \<Rightarrow> False | Some n \<Rightarrow> name_taken s (TrimSpace n) (Some p) u")
  case True
  then obtain n where n: "upd_Name req = Some n" "name_taken s (TrimSpace n) (Some p) u"
    by (cases "upd_Name req") auto
  then have "Update s u req = Some (Inl ErrDuplicateDepartmentName, s)"
    using assms by (simp add: Update_def GetByID_healthy Update_name_def ExistsByNameAndParent_healthy)
  with True show ?thesis by simp
next
  case False
  then obtain dept1 where name_ok: "Update_name s u req (scan_department r) = Inr dept1"
    using assms(1,3)
    by (cases "upd_Name req") (auto simp: Update_name_def ExistsByNameAndParent_healthy)
  have self: "Update s u req = Some (Inl ErrSelfReference, s)" if "p = u"
    using that assms name_ok
    by (simp add: Update_def GetByID_healthy Update_parent_def)
  have desc: "Update s u req = Some (Inl ErrCyclicReference, s)"
    if a: "rooted s \<and> p \<in> descendants_of (departments s) u"
  proof -
    from a have pu: "p \<noteq> u"
      by (blast dest: descendant_not_self)
    from a obtain rp where rp: "find_department s p = Some rp"
      using find_department_row[OF descendant_is_row, of p s u] by blast
    show ?thesis
      using assms name_ok a pu rp
      by (simp add: Update_def GetByID_healthy Update_parent_def IsDescendant_rooted)
  qed
  from False self desc show ?thesis by simp
qed

text \<open>
  C7. When an update carries a name and a parent, it fails with
  \<open>ErrDuplicateDepartmentName\<close> exactly when another department already has
  the incoming (trimmed) name under the incoming parent.
\<close>

theorem rename_and_move_checks_combination:
  assumes "healthy s" and "find_department s u = Some r"
    and "upd_Name req = Some n" and "upd_ParentID req = Some p"
  shows "(\<exists>s'. Update s u req = Some (Inl ErrDuplicateDepartmentName, s'))
         \<longleftrightarrow> name_taken s (TrimSpace n) (Some p) u"
proof (cases "name_taken s (TrimSpace n) (Some p) u")
  case True
  then have "Update s u req = Some (Inl ErrDuplicateDepartmentName, s)"
    using assms by (simp add: Update_def GetByID_healthy Update_name_def ExistsByNameAndParent_healthy)
  with True show ?thesis by blast
next
  case False
  let ?d1 = "Department (ID (scan_department r)) (TrimSpace n) (ParentID (scan_department r))
               (CreatedAt (scan_department r)) (Employees (scan_department r))
               (Children (scan_department r))"
  have name_ok: "Update_name s u req (scan_department r) = Inr ?d1"
    using assms False by (simp add: Update_name_def ExistsByNameAndParent_healthy)
  have "Update_parent s u req ?d1 \<noteq> Some (Inl ErrDuplicateDepartmentName)"
    using assms(1,3,4)
    by (auto simp: Update_parent_def GetByID_healthy IsDescendant_def GetAllDescendantIDs_def
        healthy_def split: option.splits sum.splits)
  then have "Update s u req \<noteq> Some (Inl ErrDuplicateDepartmentName, s')" for s'
    using assms(1,2) name_ok
    by (auto simp: Update_def GetByID_healthy Update_repo_def healthy_def
        split: option.splits sum.splits prod.splits)
  with False show ?thesis by blast
qed

section \<open>The example store is rooted\<close>

lemma org_db_rooted: "rooted org_db"
  by (simp add: rooted_def org_db_tables mk_dept_def eval_nat_numeral)

lemma org_db_edges:
  "(1, 2) \<in> parent_edges (departments org_db)"
  "(2, 3) \<in> parent_edges (departments org_db)"
  "(3, 4) \<in> parent_edges (departments org_db)"
  "(1, 5) \<in> parent_edges (departments org_db)"
  by (simp_all add: parent_edges_def org_db_tables mk_dept_def)

lemma org_db_descendants:
  "3 \<in> descendants_of (departments org_db) 2"
  "4 \<in> descendants_of (departments org_db) 2"
  unfolding descendants_of_def using org_db_edges by (auto intro: trancl_into_trancl)

lemma org_db_find:
  "find_department org_db 1 = Some (mk_dept 1 ''Company'' None)"
  "find_department org_db 2 = Some (mk_dept 2 ''IT'' (Some 1))"
  "find_department org_db 3 = Some (mk_dept 3 ''Backend'' (Some 2))"
  "find_department org_db 5 = Some (mk_dept 5 ''HR'' (Some 1))"
  by (simp_all add: find_department_def org_db_tables mk_dept_def)

lemma TrimSpace_example:
  "TrimSpace '' Backend '' = ''Backend''"
  "TrimSpace ''IT'' = ''IT''"
  "TrimSpace ''Backend'' = ''Backend''"
  "TrimSpace ''API'' = ''API''"
  by (simp_all add: TrimSpace_def trim_left.simps leading_space_def space_runes_def)

text \<open>White space beyond ASCII is cut as well: a no-break space (U+00A0) in
  front and an ideographic space (U+3000) behind.\<close>

lemma TrimSpace_unicode:
  "TrimSpace ([CHR 0xC2, CHR 0xA0] @ ''IT'' @ [CHR 0xE3, CHR 0x80, CHR 0x80]) = ''IT''"
  by (simp add: TrimSpace_def trim_left.simps leading_space_def space_runes_def)

lemma org_db_name_taken:
  "name_taken org_db ''Backend'' (Some 2) 5"
  "\<not> name_taken org_db ''IT'' (Some 3) 5"
  "name_taken org_db ''IT'' (Some 1) 5"
  "name_taken org_db ''Backend'' (Some 2) 2"
  "name_taken org_db ''API'' (Some 3) 2"
  by (simp_all add: name_taken_def org_db_tables mk_dept_def)

theorem move_under_self_or_descendant_fails_witness:
  "healthy org_db \<and> rooted org_db \<and> 4 \<in> descendants_of (departments org_db) 2
   \<and> Update org_db 2 \<lparr>upd_Name = None, upd_ParentID = Some 2\<rparr> = Some (Inl ErrSelfReference, org_db)
   \<and> Update org_db 2 \<lparr>upd_Name = None, upd_ParentID = Some 4\<rparr> = Some (Inl ErrCyclicReference, org_db)
   \<and> Update org_db 2 \<lparr>upd_Name = Some ''IT'', upd_ParentID = Some 3\<rparr>
        = Some (Inl ErrCyclicReference, org_db)"
proof -
  have free: "\<not> name_taken org_db ''IT'' (Some 3) 2"
    by (simp add: name_taken_def org_db_tables mk_dept_def)
  show ?thesis
    using move_under_self_or_descendant_fails[OF org_db_healthy org_db_find(2),
        of "\<lparr>upd_Name = None, upd_ParentID = Some 2\<rparr>" 2]
      move_under_self_or_descendant_fails[OF org_db_healthy org_db_find(2),
        of "\<lparr>upd_Name = None, upd_ParentID = Some 4\<rparr>" 4]
      move_under_self_or_descendant_fails[OF org_db_healthy org_db_find(2),
        of "\<lparr>upd_Name = Some ''IT'', upd_ParentID = Some 3\<rparr>" 3]
      org_db_healthy org_db_rooted org_db_descendants free TrimSpace_example
    by simp
qed

text \<open>C5 as stated fails: IT (2) of the example is moved under itself with the
  name Backend, which its child has, and under its descendant Backend (3) with
  the name API, which the child of Backend has; both updates fail with
  \<open>ErrDuplicateDepartmentName\<close>, not with \<open>ErrSelfReference\<close> or
  \<open>ErrCyclicReference\<close>.\<close>

theorem move_error_counterexample:
  "Update org_db 2 \<lparr>upd_Name = Some ''Backend'', upd_ParentID = Some 2\<rparr>
     = Some (Inl ErrDuplicateDepartmentName, org_db)
   \<and> Update org_db 2 \<lparr>upd_Name = Some ''API'', upd_ParentID = Some 3\<rparr>
     = Some (Inl ErrDuplicateDepartmentName, org_db)"
  by (simp add: Update_def GetByID_healthy org_db_healthy org_db_find Update_name_def
      ExistsByNameAndParent_healthy TrimSpace_example org_db_name_taken)

text \<open>Two requests for HR (5) of the example. Backend is taken under IT
  (2): duplicate. IT is taken under Company (1), the old parent of HR, and free
  under Backend (3), the new one: no duplicate.\<close>

theorem rename_and_move_checks_combination_witness:
  "healthy org_db \<and> find_department org_db 5 = Some (mk_dept 5 ''HR'' (Some 1))
   \<and> name_taken org_db (TrimSpace '' Backend '') (Some 2) 5
   \<and> (\<exists>s'. Update org_db 5 \<lparr>upd_Name = Some '' Backend '', upd_ParentID = Some 2\<rparr>
              = Some (Inl ErrDuplicateDepartmentName, s'))
   \<and> name_taken org_db ''IT'' (Some 1) 5
   \<and> (\<forall>s'. Update org_db 5 \<lparr>upd_Name = Some ''IT'', upd_ParentID = Some 3\<rparr>
              \<noteq> Some (Inl ErrDuplicateDepartmentName, s'))"
  using rename_and_move_checks_combination[OF org_db_healthy org_db_find(4),
      of "\<lparr>upd_Name = Some '' Backend '', upd_ParentID = Some 2\<rparr>" "'' Backend ''" 2]
    rename_and_move_checks_combination[OF org_db_healthy org_db_find(4),
      of "\<lparr>upd_Name = Some ''IT'', upd_ParentID = Some 3\<rparr>" "''IT''" 3]
    org_db_healthy org_db_find(4) org_db_name_taken TrimSpace_example
  by simp

section \<open>What the referential actions delete\<close>

lemma parent_edges_filter:
  "parent_edges (filter (\<lambda>r. d_parent_id r \<notin> Some ` G) ds) = {(p, c) \<in> parent_edges ds. p \<notin> G}"
  by (auto simp: parent_edges_def)

lemma referencing_ids:
  "set (map d_id (filter (\<lambda>r. d_parent_id r \<in> Some ` G) ds)) = parent_edges ds `` G"
  by (auto simp: parent_edges_def image_iff)

lemma references_gone_iff:
  assumes "distinct (map d_id ds)" and "r \<in> set ds"
  shows "d_parent_id r \<in> Some ` G \<longleftrightarrow> d_id r \<in> parent_edges ds `` G"
proof
  assume "d_parent_id r \<in> Some ` G"
  with assms(2) show "d_id r \<in> parent_edges ds `` G"
    by (auto simp: parent_edges_def)
next
  assume "d_id r \<in> parent_edges ds `` G"
  then obtain r' p where r': "r' \<in> set ds" "d_parent_id r' = Some p" "d_id r' = d_id r" "p \<in> G"
    by (auto simp: parent_edges_def)
  from assms r'(1,3) have "r' = r"
    by (meson distinct_map inj_onD)
  with r' show "d_parent_id r \<in> Some ` G" by simp
qed

lemma reach_step:
  fixes E :: "('a \<times> 'a) set" and G :: "'a set"
  defines "E' \<equiv> {(p, c) \<in> E. p \<notin> G}"
  shows "E\<^sup>+ `` G = E `` G \<union> E'\<^sup>+ `` (E `` G)"
proof (intro set_eqI iffI)
  fix c assume "c \<in> E\<^sup>+ `` G"
  then obtain g where g: "g \<in> G" "(g, c) \<in> E\<^sup>+" by blast
  from g(2) show "c \<in> E `` G \<union> E'\<^sup>+ `` (E `` G)"
  proof (induction rule: trancl_induct)
    case (base y)
    with g(1) show ?case by blast
  next
    case (step y z)
    show ?case
    proof (cases "y \<in> G")
      case True
      with step.hyps(2) show ?thesis by blast
    next
      case False
      with step.hyps(2) have e: "(y, z) \<in> E'" by (simp add: E'_def)
      from step.IH show ?thesis
      proof
        assume "y \<in> E `` G"
        with e show ?thesis by blast
      next
        assume "y \<in> E'\<^sup>+ `` (E `` G)"
        then obtain x where "x \<in> E `` G" "(x, y) \<in> E'\<^sup>+" by blast
        with e have "(x, z) \<in> E'\<^sup>+" by (meson trancl_into_trancl)
        with \<open>x \<in> E `` G\<close> show ?thesis by blast
      qed
    qed
  qed
next
  fix c assume c: "c \<in> E `` G \<union> E'\<^sup>+ `` (E `` G)"
  have sub: "E'\<^sup>+ \<subseteq> E\<^sup>+"
    by (rule trancl_mono_subset) (auto simp: E'_def)
  from c show "c \<in> E\<^sup>+ `` G"
  proof
    assume "c \<in> E `` G" then show ?thesis by blast
  next
    assume "c \<in> E'\<^sup>+ `` (E `` G)"
    then obtain x g where "g \<in> G" "(g, x) \<in> E" "(x, c) \<in> E'\<^sup>+" by blast
    with sub have "(g, c) \<in> E\<^sup>+" by (meson subsetD trancl_into_trancl2)
    with \<open>g \<in> G\<close> show ?thesis by blast
  qed
qed


lemma on_delete_cascade_closure:
  "distinct (map d_id ds) \<Longrightarrow>
   on_delete_cascade gone ds es =
     (filter (\<lambda>r. d_id r \<notin> (parent_edges ds)\<^sup>+ `` set gone) ds,
      filter (\<lambda>e. e_DepartmentID e \<notin> set gone \<union> (parent_edges ds)\<^sup>+ `` set gone) es)"
proof (induction gone ds es rule: on_delete_cascade.induct)
  case (1 gone ds es)
  let ?E = "parent_edges ds"
  let ?refs = "filter (\<lambda>r. d_parent_id r \<in> Some ` set gone) ds"
  let ?ds' = "filter (\<lambda>r. d_parent_id r \<notin> Some ` set gone) ds"
  let ?es' = "filter (\<lambda>e. e_DepartmentID e \<notin> set gone) es"
  show ?case
  proof (cases "?refs = []")
    case True
    then have "?E `` set gone = {}"
      using referencing_ids[of "set gone" ds] by simp
    then have "?E\<^sup>+ `` set gone = {}"
      using reach_step[of ?E "set gone"] by simp
    with True show ?thesis
      by (subst on_delete_cascade.simps) (simp add: Let_def)
  next
    case False
    have d': "distinct (map d_id ?ds')"
      using "1.prems" by (simp add: distinct_map_filter)
    have ih: "on_delete_cascade (map d_id ?refs) ?ds' ?es' =
        (filter (\<lambda>r. d_id r \<notin> (parent_edges ?ds')\<^sup>+ `` set (map d_id ?refs)) ?ds',
         filter (\<lambda>e. e_DepartmentID e \<notin> set (map d_id ?refs) \<union> (parent_edges ?ds')\<^sup>+ `` set (map d_id ?refs)) ?es')"
      using "1.IH"[OF refl refl False d'] .
    have reach: "?E\<^sup>+ `` set gone = ?E `` set gone \<union> (parent_edges ?ds')\<^sup>+ `` (?E `` set gone)"
      unfolding parent_edges_filter by (rule reach_step)
    have ids: "set (map d_id ?refs) = ?E `` set gone"
      by (rule referencing_ids)
    have rows: "filter (\<lambda>r. d_id r \<notin> (parent_edges ?ds')\<^sup>+ `` (?E `` set gone)) ?ds'
                = filter (\<lambda>r. d_id r \<notin> ?E\<^sup>+ `` set gone) ds"
      unfolding filter_filter
      by (rule filter_cong[OF refl]) (use references_gone_iff[OF "1.prems"] reach in auto)
    have emps: "filter (\<lambda>e. e_DepartmentID e \<notin> ?E `` set gone \<union> (parent_edges ?ds')\<^sup>+ `` (?E `` set gone)) ?es'
                = filter (\<lambda>e. e_DepartmentID e \<notin> set gone \<union> ?E\<^sup>+ `` set gone) es"
      unfolding filter_filter
      by (rule filter_cong[OF refl]) (use reach in auto)
    have "on_delete_cascade gone ds es = on_delete_cascade (map d_id ?refs) ?ds' ?es'"
      using False by (subst on_delete_cascade.simps) (simp add: Let_def)
    then show ?thesis
      unfolding ih ids rows emps .
  qed
qed

section \<open>Deleting a department\<close>

lemma drop_edges_into:
  fixes E :: "('a \<times> 'a) set" and i :: 'a
  defines "E1 \<equiv> {(p, c) \<in> E. c \<noteq> i}"
  shows "E1\<^sup>+ `` {i} = E\<^sup>+ `` {i} - {i}"
proof (intro set_eqI iffI)
  fix c assume "c \<in> E1\<^sup>+ `` {i}"
  then have ic: "(i, c) \<in> E1\<^sup>+" by simp
  have "E1 \<subseteq> E" by (auto simp: E1_def)
  then have "(i, c) \<in> E\<^sup>+" using ic trancl_mono by blast
  moreover have "c \<noteq> i"
    using ic by (cases rule: tranclE) (auto simp: E1_def)
  ultimately show "c \<in> E\<^sup>+ `` {i} - {i}" by simp
next
  fix c assume "c \<in> E\<^sup>+ `` {i} - {i}"
  then have ic: "(i, c) \<in> E\<^sup>+" and ne: "c \<noteq> i" by auto
  have "c \<noteq> i \<longrightarrow> (i, c) \<in> E1\<^sup>+"
    using ic
  proof (induction rule: trancl_induct)
    case (base y)
    then show ?case by (auto simp: E1_def)
  next
    case (step y z)
    show ?case
    proof
      assume z: "z \<noteq> i"
      with step.hyps(2) have e: "(y, z) \<in> E1" by (simp add: E1_def)
      show "(i, z) \<in> E1\<^sup>+"
      proof (cases "y = i")
        case True
        with e show ?thesis by blast
      next
        case False
        with step.IH e show ?thesis by (meson trancl_into_trancl)
      qed
    qed
  qed
  with ne show "c \<in> E1\<^sup>+ `` {i}" by simp
qed

lemma parent_edges_without_row:
  "parent_edges (filter (\<lambda>r. d_id r \<noteq> i) ds) = {(p, c) \<in> parent_edges ds. c \<noteq> i}"
  by (auto simp: parent_edges_def)

lemma subtree_of_alt: "subtree_of ds i = insert i ((parent_edges ds)\<^sup>+ `` {i})"
  by (auto simp: subtree_of_def descendants_of_def)

text \<open>One \<^verbatim>\<open>DELETE\<close> of an existing department removes its whole subtree and
  the employees of the subtree, and nothing else.\<close>

lemma Delete_repo_subtree:
  assumes "distinct (map d_id (departments s))" and "\<not> db_fault s (DeleteDepartment i)"
    and "i \<in> d_id ` set (departments s)"
  shows "Delete_repo s i =
           (None, s\<lparr>departments := filter (\<lambda>r. d_id r \<notin> subtree_of (departments s) i) (departments s),
                    employees := filter (\<lambda>e. e_DepartmentID e \<notin> subtree_of (departments s) i) (employees s),
                    writes := writes s @ [DeleteDepartment i]\<rparr>)"
proof -
  let ?ds = "departments s"
  let ?ds1 = "filter (\<lambda>r. d_id r \<noteq> i) ?ds"
  have d1: "distinct (map d_id ?ds1)"
    using assms(1) by (simp add: distinct_map_filter)
  have ex: "filter (\<lambda>r. d_id r = i) ?ds \<noteq> []"
    using assms(3) by (auto simp: filter_empty_conv)
  have reach: "(parent_edges ?ds1)\<^sup>+ `` {i} = (parent_edges ?ds)\<^sup>+ `` {i} - {i}"
    unfolding parent_edges_without_row by (rule drop_edges_into)
  have rows: "filter (\<lambda>r. d_id r \<notin> (parent_edges ?ds1)\<^sup>+ `` set [i]) ?ds1
              = filter (\<lambda>r. d_id r \<notin> subtree_of ?ds i) ?ds"
    unfolding filter_filter subtree_of_alt
    by (rule filter_cong[OF refl]) (use reach in auto)
  have emps: "filter (\<lambda>e. e_DepartmentID e \<notin> set [i] \<union> (parent_edges ?ds1)\<^sup>+ `` set [i]) (employees s)
              = filter (\<lambda>e. e_DepartmentID e \<notin> subtree_of ?ds i) (employees s)"
    unfolding subtree_of_alt
    by (rule filter_cong[OF refl]) (use reach in auto)
  have "on_delete_cascade [i] ?ds1 (employees s) =
          (filter (\<lambda>r. d_id r \<notin> subtree_of ?ds i) ?ds,
           filter (\<lambda>e. e_DepartmentID e \<notin> subtree_of ?ds i) (employees s))"
    unfolding on_delete_cascade_closure[OF d1] rows emps by (rule refl)
  with assms(2) ex show ?thesis
    by (simp add: Delete_repo_def)
qed

text \<open>The loop over the descendants on a healthy store: every employee of a
  listed department ends up in the target.\<close>

lemma ReassignToDepartment_healthy:
  "healthy s \<Longrightarrow>
   ReassignToDepartment s d t =
     (None, s\<lparr>employees := map (\<lambda>e. if e_DepartmentID e = d then e\<lparr>e_DepartmentID := t\<rparr> else e) (employees s),
              writes := writes s @ [UpdateEmployeesDepartment d t]\<rparr>)"
  by (simp add: ReassignToDepartment_def healthy_def)

lemma healthy_update [simp]:
  "healthy (s\<lparr>employees := es\<rparr>) = healthy s"
  "healthy (s\<lparr>writes := ws\<rparr>) = healthy s"
  "healthy (s\<lparr>departments := ds\<rparr>) = healthy s"
  by (simp_all add: healthy_def)

lemma reassign_each_healthy:
  "healthy s \<Longrightarrow>
   reassign_each s ds t =
     (None, s\<lparr>employees := map (\<lambda>e. if e_DepartmentID e \<in> set ds then e\<lparr>e_DepartmentID := t\<rparr> else e)
                             (employees s),
              writes := writes s @ map (\<lambda>d. UpdateEmployeesDepartment d t) ds\<rparr>)"
proof (induction ds arbitrary: s)
  case Nil
  then show ?case by simp
next
  case (Cons d ds)
  let ?s1 = "s\<lparr>employees := map (\<lambda>e. if e_DepartmentID e = d then e\<lparr>e_DepartmentID := t\<rparr> else e) (employees s),
              writes := writes s @ [UpdateEmployeesDepartment d t]\<rparr>"
  have h1: "healthy ?s1" using Cons.prems by simp
  have m: "(\<lambda>e. if e_DepartmentID e \<in> set ds then e\<lparr>e_DepartmentID := t\<rparr> else e) \<circ>
           (\<lambda>e. if e_DepartmentID e = d then e\<lparr>e_DepartmentID := t\<rparr> else e)
           = (\<lambda>e. if e_DepartmentID e \<in> set (d # ds) then e\<lparr>e_DepartmentID := t\<rparr> else e)"
    by (rule ext) simp
  show ?case
    by (simp add: ReassignToDepartment_healthy[OF Cons.prems] Cons.IH[OF h1] m del: set_simps)
qed


lemma rooted_update [simp]:
  "rooted (s\<lparr>employees := es\<rparr>) = rooted s"
  "rooted (s\<lparr>writes := ws\<rparr>) = rooted s"
  by (simp_all add: rooted_def)

lemma find_department_update [simp]:
  "find_department (s\<lparr>employees := es\<rparr>) = find_department s"
  "find_department (s\<lparr>writes := ws\<rparr>) = find_department s"
  by (simp_all add: find_department_def fun_eq_iff)

lemma find_department_id: "find_department s i = Some r \<Longrightarrow> r \<in> set (departments s) \<and> d_id r = i"
  by (auto simp: find_department_def find_Some_iff)

lemma subtree_of_list: "set res = descendants_of ds i \<Longrightarrow> subtree_of ds i = set (i # res)"
  by (simp add: subtree_of_def)

text \<open>
  \<^verbatim>\<open>Delete\<close> with mode \<^verbatim>\<open>reassign\<close> on a healthy rooted store, for an existing
  department and an existing other target: the statements it runs and the
  store it leaves.
\<close>

lemma Delete_reassign_steps:
  assumes "healthy s" and "rooted s"
    and "find_department s i = Some r" and "find_department s t = Some rt" and "t \<noteq> i"
    and "Mode q = ''reassign''" and "ReassignToDepartmentID q = Some t"
  shows "\<exists>res s1 s2.
           set res = descendants_of (departments s) i \<and>
           ReassignToDepartment s i t = (None, s1) \<and>
           GetAllDescendantIDs s1 i = Some (Inr res) \<and>
           reassign_each s1 res t = (None, s2) \<and>
           departments s2 = departments s \<and>
           employees s2 = map (\<lambda>e. if e_DepartmentID e \<in> subtree_of (departments s) i
                                    then e\<lparr>e_DepartmentID := t\<rparr> else e) (employees s) \<and>
           writes s2 = writes s @ UpdateEmployeesDepartment i t #
                         map (\<lambda>d. UpdateEmployeesDepartment d t) res \<and>
           Delete s i q = Some (DeleteCascade s2 i) \<and>
           DeleteCascade s2 i =
             (None,
              s\<lparr>departments := filter (\<lambda>r. d_id r \<notin> subtree_of (departments s) i) (departments s),
                employees :=
                  filter (\<lambda>e. e_DepartmentID e \<notin> subtree_of (departments s) i)
                    (map (\<lambda>e. if e_DepartmentID e \<in> subtree_of (departments s) i
                              then e\<lparr>e_DepartmentID := t\<rparr> else e)
                       (employees s)),
                writes := writes s @ UpdateEmployeesDepartment i t #
                            map (\<lambda>d. UpdateEmployeesDepartment d t) res @ [DeleteDepartment i]\<rparr>)"
proof -
  let ?ds = "departments s"
  let ?move = "\<lambda>D e. if e_DepartmentID e \<in> D then e\<lparr>e_DepartmentID := t\<rparr> else e"
  let ?s1 = "s\<lparr>employees := map (\<lambda>e. if e_DepartmentID e = i then e\<lparr>e_DepartmentID := t\<rparr> else e) (employees s),
               writes := writes s @ [UpdateEmployeesDepartment i t]\<rparr>"
  have first: "ReassignToDepartment s i t = (None, ?s1)"
    by (rule ReassignToDepartment_healthy[OF assms(1)])
  have h1: "healthy ?s1" and r1: "rooted ?s1"
    using assms(1,2) by simp_all
  have nf: "\<not> db_fault ?s1 (SelectDescendants i)"
    using assms(1) by (simp add: healthy_def)
  from GetAllDescendantIDs_rooted[OF r1 nf]
  obtain res where res: "GetAllDescendantIDs ?s1 i = Some (Inr res)"
    "set res = descendants_of ?ds i"
    by auto
  let ?s2 = "?s1\<lparr>employees := map (?move (set res)) (employees ?s1),
                  writes := writes ?s1 @ map (\<lambda>d. UpdateEmployeesDepartment d t) res\<rparr>"
  have loop: "reassign_each ?s1 res t = (None, ?s2)"
    by (rule reassign_each_healthy[OF h1])
  have sub: "subtree_of ?ds i = set (i # res)"
    by (rule subtree_of_list[OF res(2)])
  have dist: "distinct (map d_id (departments ?s2))"
    using assms(2) by (simp add: rooted_def)
  have nf2: "\<not> db_fault ?s2 (DeleteDepartment i)"
    using assms(1) by (simp add: healthy_def)
  have row: "i \<in> d_id ` set (departments ?s2)"
    using find_department_id[OF assms(3)] by auto
  have m: "?move (set res) \<circ> (\<lambda>e. if e_DepartmentID e = i then e\<lparr>e_DepartmentID := t\<rparr> else e)
           = ?move (set (i # res))"
    by (rule ext) simp
  have deps2: "departments ?s2 = ?ds"
    by simp
  have emps2: "employees ?s2 = map (?move (subtree_of ?ds i)) (employees s)"
    by (simp add: m sub del: set_simps)
  have writes2: "writes ?s2 = writes s @ UpdateEmployeesDepartment i t #
                                map (\<lambda>d. UpdateEmployeesDepartment d t) res"
    by simp
  have del: "DeleteCascade ?s2 i =
      (None, s\<lparr>departments := filter (\<lambda>r. d_id r \<notin> subtree_of ?ds i) ?ds,
               employees := filter (\<lambda>e. e_DepartmentID e \<notin> subtree_of ?ds i)
                              (map (?move (subtree_of ?ds i)) (employees s)),
               writes := writes s @ UpdateEmployeesDepartment i t #
                           map (\<lambda>d. UpdateEmployeesDepartment d t) res @ [DeleteDepartment i]\<rparr>)"
    unfolding DeleteCascade_def Delete_repo_subtree[OF dist nf2 row]
    by (simp add: m sub del: set_simps)
  have run: "Delete s i q = Some (DeleteCascade ?s2 i)"
    using assms res(1) loop
    by (simp add: Delete_def GetByID_healthy ReassignToDepartment_healthy)
  show ?thesis
    by (intro exI[of _ res] exI[of _ ?s1] exI[of _ ?s2] conjI)
      (rule res(2) first res(1) loop deps2 emps2 writes2 run del)+
qed

lemma Delete_reassign_healthy:
  assumes "healthy s" and "rooted s"
    and "find_department s i = Some r" and "find_department s t = Some rt" and "t \<noteq> i"
    and "Mode q = ''reassign''" and "ReassignToDepartmentID q = Some t"
  shows "\<exists>res. set res = descendants_of (departments s) i \<and>
           Delete s i q =
             Some (None,
                   s\<lparr>departments := filter (\<lambda>r. d_id r \<notin> subtree_of (departments s) i) (departments s),
                     employees :=
                       filter (\<lambda>e. e_DepartmentID e \<notin> subtree_of (departments s) i)
                         (map (\<lambda>e. if e_DepartmentID e \<in> subtree_of (departments s) i
                                   then e\<lparr>e_DepartmentID := t\<rparr> else e)
                            (employees s)),
                     writes := writes s @ UpdateEmployeesDepartment i t #
                                 map (\<lambda>d. UpdateEmployeesDepartment d t) res @ [DeleteDepartment i]\<rparr>)"
proof -
  from Delete_reassign_steps[OF assms] obtain res s2 where
    "set res = descendants_of (departments s) i"
    "Delete s i q = Some (DeleteCascade s2 i)"
    "DeleteCascade s2 i =
       (None,
        s\<lparr>departments := filter (\<lambda>r. d_id r \<notin> subtree_of (departments s) i) (departments s),
          employees :=
            filter (\<lambda>e. e_DepartmentID e \<notin> subtree_of (departments s) i)
              (map (\<lambda>e. if e_DepartmentID e \<in> subtree_of (departments s) i
                        then e\<lparr>e_DepartmentID := t\<rparr> else e)
                 (employees s)),
          writes := writes s @ UpdateEmployeesDepartment i t #
                      map (\<lambda>d. UpdateEmployeesDepartment d t) res @ [DeleteDepartment i]\<rparr>)"
    by blast
  then show ?thesis by (intro exI[of _ res]) simp
qed

section \<open>The two modes of deletion\<close>

text \<open>
  C2 (as the code has it). With mode \<^verbatim>\<open>cascade\<close> the service runs one statement,
  the \<^verbatim>\<open>DELETE\<close> of the department itself, and leaves the rest to the
  referential actions of the schema. On a healthy store with unique
  identifiers the outcome is the store without the departments of the subtree
  and without their employees; all other rows stay as they are.
\<close>

theorem cascade_delete_is_one_statement:
  assumes "healthy s" and "distinct (map d_id (departments s))"
    and "find_department s i = Some r" and "Mode q = ''cascade''"
  shows "Delete s i q =
           Some (None,
                 s\<lparr>departments := filter (\<lambda>r. d_id r \<notin> subtree_of (departments s) i) (departments s),
                   employees := filter (\<lambda>e. e_DepartmentID e \<notin> subtree_of (departments s) i) (employees s),
                   writes := writes s @ [DeleteDepartment i]\<rparr>)"
proof -
  have nf: "\<not> db_fault s (DeleteDepartment i)"
    using assms(1) by (simp add: healthy_def)
  have row: "i \<in> d_id ` set (departments s)"
    using find_department_id[OF assms(3)] by auto
  show ?thesis
    using assms(1,3,4)
    by (simp add: Delete_def GetByID_healthy DeleteCascade_def Delete_repo_subtree[OF assms(2) nf row])
qed

lemma org_db_distinct: "distinct (map d_id (departments org_db))"
  by (simp add: org_db_tables mk_dept_def)

theorem cascade_delete_is_one_statement_witness:
  "healthy org_db \<and> distinct (map d_id (departments org_db))
   \<and> find_department org_db 3 = Some (mk_dept 3 ''Backend'' (Some 2))
   \<and> Delete org_db 3 \<lparr>Mode = ''cascade'', ReassignToDepartmentID = None\<rparr> =
        Some (None,
              org_db\<lparr>departments :=
                       filter (\<lambda>r. d_id r \<notin> subtree_of (departments org_db) 3) (departments org_db),
                     employees :=
                       filter (\<lambda>e. e_DepartmentID e \<notin> subtree_of (departments org_db) 3) (employees org_db),
                     writes := writes org_db @ [DeleteDepartment 3]\<rparr>)"
  using cascade_delete_is_one_statement[OF org_db_healthy org_db_distinct org_db_find(3),
      of "\<lparr>Mode = ''cascade'', ReassignToDepartmentID = None\<rparr>"]
    org_db_healthy org_db_distinct org_db_find(3)
  by simp

text \<open>C2 as stated fails: deleting IT (2) of the example with mode
  \<^verbatim>\<open>cascade\<close> runs the single statement \<^verbatim>\<open>DELETE\<close> of department 2; Backend (3),
  API (4) and the three employees of the subtree are never named by a statement
  of the service and disappear through the referential actions.\<close>

theorem cascade_enumeration_counterexample:
  "Delete org_db 2 \<lparr>Mode = ''cascade'', ReassignToDepartmentID = None\<rparr> =
     Some (None,
           org_db\<lparr>departments := [mk_dept 1 ''Company'' None, mk_dept 5 ''HR'' (Some 1)],
                  employees := [mk_emp 10 1 7, mk_emp 11 1 3],
                  writes := [DeleteDepartment 2]\<rparr>)"
  by (simp add: Delete_def GetByID_def DeleteCascade_def Delete_repo_def find_department_def
      org_db_tables mk_dept_def mk_emp_def on_delete_cascade.simps Let_def)



text \<open>
  C1 and what the code does instead. The members of IT (2), Backend (3) and API
  (4) of the example are reassigned to Backend, which is then deleted with the
  rest of the subtree of IT: the call succeeds and employees 12, 13 and 14 are
  gone from the store.
\<close>

theorem reassign_to_descendant_loses_members:
  "Delete org_db 2 \<lparr>Mode = ''reassign'', ReassignToDepartmentID = Some 3\<rparr> =
     Some (None,
           org_db\<lparr>departments := [mk_dept 1 ''Company'' None, mk_dept 5 ''HR'' (Some 1)],
                  employees := [mk_emp 10 1 7, mk_emp 11 1 3],
                  writes := [UpdateEmployeesDepartment 2 3, UpdateEmployeesDepartment 3 3,
                             UpdateEmployeesDepartment 4 3, DeleteDepartment 2]\<rparr>)"
  by (simp add: Delete_def GetByID_def DeleteCascade_def Delete_repo_def find_department_def
      ReassignToDepartment_def GetAllDescendantIDs_def descendants_cte.simps children_ids_def
      join_children_def
      org_db_tables mk_dept_def mk_emp_def on_delete_cascade.simps Let_def)


text \<open>The extent of that: on a healthy rooted store the same call with a
  target outside the subtree keeps every employee and moves those of the
  subtree to the target, and with a target inside the subtree it deletes every
  employee of the subtree.\<close>

lemma reassign_outside_subtree_keeps_members:
  assumes "healthy s" and "rooted s"
    and "find_department s i = Some r" and "find_department s t = Some rt"
    and "t \<notin> subtree_of (departments s) i"
    and "Mode q = ''reassign''" and "ReassignToDepartmentID q = Some t"
  shows "\<exists>s'. Delete s i q = Some (None, s')
           \<and> departments s' = filter (\<lambda>r. d_id r \<notin> subtree_of (departments s) i) (departments s)
           \<and> employees s' = map (\<lambda>e. if e_DepartmentID e \<in> subtree_of (departments s) i
                                      then e\<lparr>e_DepartmentID := t\<rparr> else e) (employees s)"
proof -
  let ?S = "subtree_of (departments s) i"
  have ne: "t \<noteq> i" using assms(5) by (auto simp: subtree_of_def)
  have keep: "filter (\<lambda>e. e_DepartmentID e \<notin> ?S)
                (map (\<lambda>e. if e_DepartmentID e \<in> ?S then e\<lparr>e_DepartmentID := t\<rparr> else e) (employees s))
              = map (\<lambda>e. if e_DepartmentID e \<in> ?S then e\<lparr>e_DepartmentID := t\<rparr> else e) (employees s)"
    using assms(5) by (intro filter_True) auto
  from Delete_reassign_healthy[OF assms(1,2,3,4) ne assms(6,7)] show ?thesis
    unfolding keep by auto
qed

lemma reassign_inside_subtree_deletes_members:
  assumes "healthy s" and "rooted s" and "find_department s i = Some r"
    and "t \<in> descendants_of (departments s) i"
    and "Mode q = ''reassign''" and "ReassignToDepartmentID q = Some t"
  shows "\<exists>s'. Delete s i q = Some (None, s')
           \<and> employees s' = filter (\<lambda>e. e_DepartmentID e \<notin> subtree_of (departments s) i) (employees s)"
proof -
  let ?S = "subtree_of (departments s) i"
  let ?f = "\<lambda>e. if e_DepartmentID e \<in> ?S then e\<lparr>e_DepartmentID := t\<rparr> else e"
  have ne: "t \<noteq> i"
    using assms(2,4) by (rule descendant_not_self)
  obtain rt where rt: "find_department s t = Some rt"
    using find_department_row[OF descendant_is_row[OF assms(4)]] by blast
  have tS: "t \<in> ?S" using assms(4) by (simp add: subtree_of_def)
  have "filter (\<lambda>e. e_DepartmentID e \<notin> ?S) (map ?f (employees s))
        = map ?f (filter (\<lambda>e. e_DepartmentID e \<notin> ?S) (employees s))"
    unfolding filter_map using tS by (intro arg_cong[of _ _ "map ?f"] filter_cong) auto
  also have "\<dots> = filter (\<lambda>e. e_DepartmentID e \<notin> ?S) (employees s)"
    by (intro map_idI) auto
  finally have lose: "filter (\<lambda>e. e_DepartmentID e \<notin> ?S) (map ?f (employees s))
        = filter (\<lambda>e. e_DepartmentID e \<notin> ?S) (employees s)" .
  from Delete_reassign_healthy[OF assms(1,2,3) rt ne assms(5,6)] show ?thesis
    unfolding lose by auto
qed

section \<open>The descendant query on a store with a cycle\<close>

text \<open>A round of the query whose working table holds a department from which
  a cycle can be reached is followed by another such round: the query never
  answers.\<close>

lemma cycle_reached_step:
  assumes "(w, c) \<in> E\<^sup>*" and "(c, c) \<in> E\<^sup>+"
  shows "\<exists>x. (w, x) \<in> E \<and> (x, c) \<in> E\<^sup>*"
  using assms
  by (metis converse_rtranclE tranclD trancl_into_rtrancl)

lemma descendants_cte_no_answer:
  assumes "descendants_cte ds acc work = Some res"
  shows "\<not> (\<exists>w \<in> set work. \<exists>c. (w, c) \<in> (parent_edges ds)\<^sup>* \<and> (c, c) \<in> (parent_edges ds)\<^sup>+)"
proof (rule descendants_cte.raw_induct[where P = "\<lambda>ds acc work res.
    \<not> (\<exists>w \<in> set work. \<exists>c. (w, c) \<in> (parent_edges ds)\<^sup>* \<and> (c, c) \<in> (parent_edges ds)\<^sup>+)",
    OF _ assms])
  fix rec :: "department_row list \<Rightarrow> int list \<Rightarrow> int list \<Rightarrow> int list option"
    and ds acc work res
  assume IH: "\<And>ds acc work res. rec ds acc work = Some res \<Longrightarrow>
      \<not> (\<exists>w \<in> set work. \<exists>c. (w, c) \<in> (parent_edges ds)\<^sup>* \<and> (c, c) \<in> (parent_edges ds)\<^sup>+)"
    and eq: "(if work = [] then Some acc else rec ds (acc @ work) (join_children ds work)) = Some res"
  show "\<not> (\<exists>w \<in> set work. \<exists>c. (w, c) \<in> (parent_edges ds)\<^sup>* \<and> (c, c) \<in> (parent_edges ds)\<^sup>+)"
  proof
    assume "\<exists>w \<in> set work. \<exists>c. (w, c) \<in> (parent_edges ds)\<^sup>* \<and> (c, c) \<in> (parent_edges ds)\<^sup>+"
    then obtain w c where w: "w \<in> set work" "(w, c) \<in> (parent_edges ds)\<^sup>*"
      "(c, c) \<in> (parent_edges ds)\<^sup>+"
      by blast
    then have ne: "work \<noteq> []" by auto
    from cycle_reached_step[OF w(2,3)] obtain x where
      x: "(w, x) \<in> parent_edges ds" "(x, c) \<in> (parent_edges ds)\<^sup>*"
      by blast
    with w(1) have "x \<in> set (join_children ds work)"
      by (auto simp: set_join_children)
    moreover from eq ne have "rec ds (acc @ work) (join_children ds work) = Some res"
      by simp
    ultimately show False
      using IH x(2) w(3) by blast
  qed
qed

lemma GetAllDescendantIDs_cycle:
  assumes "\<not> db_fault s (SelectDescendants i)"
    and "(i, c) \<in> (parent_edges (departments s))\<^sup>+" and "(c, c) \<in> (parent_edges (departments s))\<^sup>+"
  shows "GetAllDescendantIDs s i = None"
proof -
  let ?E = "parent_edges (departments s)"
  from assms(2) obtain x where x: "(i, x) \<in> ?E" "(x, c) \<in> ?E\<^sup>*"
    by (meson tranclD)
  then have "x \<in> set (children_ids (departments s) i)"
    by (simp add: set_children_ids)
  with x(2) assms(3) have "descendants_cte (departments s) [] (children_ids (departments s) i) = None"
    using descendants_cte_no_answer[of "departments s" "[]" "children_ids (departments s) i"]
    by (cases "descendants_cte (departments s) [] (children_ids (departments s) i)") blast+
  with assms(1) show ?thesis
    by (simp add: GetAllDescendantIDs_def)
qed


text \<open>
  C3 (as the code has it). The descendant query keeps no set of visited
  departments and knows no integrity error. When the server answers it, then on
  a rooted store it returns exactly the descendants, and on a store where a
  cycle of parent references can be reached from the start department it
  never returns, and neither does \<^verbatim>\<open>IsDescendant\<close>.
\<close>

theorem descendant_query_without_cycle_guard:
  assumes "\<not> db_fault s (SelectDescendants i)"
  shows "(rooted s \<longrightarrow>
            (\<exists>res. GetAllDescendantIDs s i = Some (Inr res) \<and>
                   set res = descendants_of (departments s) i)) \<and>
         ((\<exists>c. (i, c) \<in> (parent_edges (departments s))\<^sup>+ \<and> (c, c) \<in> (parent_edges (departments s))\<^sup>+) \<longrightarrow>
            GetAllDescendantIDs s i = None \<and> IsDescendant s i d = None)"
proof (intro conjI impI)
  assume "rooted s"
  then show "\<exists>res. GetAllDescendantIDs s i = Some (Inr res) \<and> set res = descendants_of (departments s) i"
    using assms by (rule GetAllDescendantIDs_rooted)
next
  assume "\<exists>c. (i, c) \<in> (parent_edges (departments s))\<^sup>+ \<and> (c, c) \<in> (parent_edges (departments s))\<^sup>+"
  then have "GetAllDescendantIDs s i = None"
    using assms by (blast intro: GetAllDescendantIDs_cycle)
  then show "GetAllDescendantIDs s i = None" and "IsDescendant s i d = None"
    by (simp_all add: IsDescendant_def)
qed

lemma cyclic_db_tables:
  "departments cyclic_db = [mk_dept 1 ''A'' (Some 2), mk_dept 2 ''B'' (Some 1)]"
  "db_fault cyclic_db q = False"
  by (simp_all add: cyclic_db_def)

lemma cyclic_db_cycle:
  "(1, 1) \<in> (parent_edges (departments cyclic_db))\<^sup>+"
proof -
  have "(1, 2) \<in> parent_edges (departments cyclic_db)" "(2, 1) \<in> parent_edges (departments cyclic_db)"
    by (simp_all add: parent_edges_def cyclic_db_tables mk_dept_def)
  then show ?thesis by (meson r_into_trancl trancl_into_trancl)
qed

theorem descendant_query_without_cycle_guard_witness:
  "\<not> db_fault org_db (SelectDescendants 1) \<and> rooted org_db
   \<and> (\<exists>res. GetAllDescendantIDs org_db 1 = Some (Inr res) \<and> set res = descendants_of (departments org_db) 1)
   \<and> \<not> db_fault cyclic_db (SelectDescendants 1)
   \<and> (1, 1) \<in> (parent_edges (departments cyclic_db))\<^sup>+
   \<and> GetAllDescendantIDs cyclic_db 1 = None"
  using descendant_query_without_cycle_guard[of org_db 1 2]
    descendant_query_without_cycle_guard[of cyclic_db 1 2]
    org_db_rooted cyclic_db_cycle
  by (auto simp: org_db_tables cyclic_db_tables)

text \<open>C3 as stated fails: on the store where departments 1 and 2 are each
  other's parent, the descendant query for department 1 and the test whether 2
  descends from 1 never return; they do not fail with an error.\<close>

theorem cycle_guard_counterexample:
  "GetAllDescendantIDs cyclic_db 1 = None \<and> IsDescendant cyclic_db 1 2 = None"
proof -
  have "GetAllDescendantIDs cyclic_db 1 = None"
    by (rule GetAllDescendantIDs_cycle[OF _ cyclic_db_cycle cyclic_db_cycle])
      (simp add: cyclic_db_tables)
  then show ?thesis by (simp add: IsDescendant_def)
qed

section \<open>Operations that fail part way\<close>




lemma ReassignToDepartment_cases:
  "ReassignToDepartment s d t = (r, s') \<Longrightarrow>
   (r \<noteq> None \<and> s' = s) \<or>
   (r = None \<and>
    s' = s\<lparr>employees := map (\<lambda>e. if e_DepartmentID e = d then e\<lparr>e_DepartmentID := t\<rparr> else e) (employees s),
           writes := writes s @ [UpdateEmployeesDepartment d t]\<rparr>)"
  by (auto simp: ReassignToDepartment_def split: if_splits)

lemma reassign_each_done:
  "reassign_each s ds t = (r, s') \<Longrightarrow>
   \<exists>done. s' = s\<lparr>employees := map (\<lambda>e. if e_DepartmentID e \<in> set done then e\<lparr>e_DepartmentID := t\<rparr> else e)
                                  (employees s),
                  writes := writes s @ map (\<lambda>d. UpdateEmployeesDepartment d t) done\<rparr>"
proof (induction ds arbitrary: s)
  case Nil
  then have "s' = s" by simp
  then show ?case by (intro exI[of _ "[]"]) simp
next
  case (Cons d ds)
  obtain r1 s1 where step: "ReassignToDepartment s d t = (r1, s1)"
    by (cases "ReassignToDepartment s d t")
  from ReassignToDepartment_cases[OF step] show ?case
  proof
    assume "r1 \<noteq> None \<and> s1 = s"
    with Cons.prems step have "s' = s" by auto
    then show ?thesis by (intro exI[of _ "[]"]) simp
  next
    assume ok: "r1 = None \<and>
      s1 = s\<lparr>employees := map (\<lambda>e. if e_DepartmentID e = d then e\<lparr>e_DepartmentID := t\<rparr> else e) (employees s),
             writes := writes s @ [UpdateEmployeesDepartment d t]\<rparr>"
    with Cons.prems step have "reassign_each s1 ds t = (r, s')" by simp
    from Cons.IH[OF this] obtain done' where
      s': "s' = s1\<lparr>employees := map (\<lambda>e. if e_DepartmentID e \<in> set done' then e\<lparr>e_DepartmentID := t\<rparr> else e)
                                   (employees s1),
                   writes := writes s1 @ map (\<lambda>d. UpdateEmployeesDepartment d t) done'\<rparr>"
      by blast
    have m: "(\<lambda>e. if e_DepartmentID e \<in> set done' then e\<lparr>e_DepartmentID := t\<rparr> else e) \<circ>
             (\<lambda>e. if e_DepartmentID e = d then e\<lparr>e_DepartmentID := t\<rparr> else e)
             = (\<lambda>e. if e_DepartmentID e \<in> set (d # done') then e\<lparr>e_DepartmentID := t\<rparr> else e)"
      by (rule ext) simp
    show ?thesis
      using s' ok by (intro exI[of _ "d # done'"]) (simp add: m del: set_simps)
  qed
qed

lemma GetAllDescendantIDs_update [simp]:
  "GetAllDescendantIDs (s\<lparr>employees := es, writes := ws\<rparr>) i = GetAllDescendantIDs s i"
  by (simp add: GetAllDescendantIDs_def)



lemma flaky_db_tables:
  "departments flaky_db = departments org_db"
  "employees flaky_db = employees org_db"
  "writes flaky_db = []"
  "db_fault flaky_db q = (q = UpdateEmployeesDepartment 3 5)"
  by (simp_all add: flaky_db_def org_db_tables)


lemma flaky_db_reassigned: "reassigned_before_failure flaky_db 2 5 = [2]"
  by (simp add: reassigned_before_failure_def GetAllDescendantIDs_def descendants_cte.simps
      children_ids_def join_children_def flaky_db_tables org_db_tables mk_dept_def)




section \<open>Rooted stores are the acyclic ones with valid parent references\<close>

lemma find_SomeD: "find P xs = Some x \<Longrightarrow> x \<in> set xs \<and> P x"
  by (induction xs) (auto split: if_splits)

lemma climbs_is_row: "climbs ds n u \<Longrightarrow> u \<in> d_id ` set ds"
proof (cases n)
  case 0
  assume "climbs ds n u"
  with 0 show ?thesis by simp
next
  case (Suc m)
  assume "climbs ds n u"
  with Suc obtain r where "find (\<lambda>r. d_id r = u) ds = Some r"
    by (cases "find (\<lambda>r. d_id r = u) ds") auto
  from find_SomeD[OF this] show ?thesis by blast
qed

lemma rooted_parent_is_row:
  assumes "rooted s" and "r \<in> set (departments s)" and "d_parent_id r = Some p"
  shows "p \<in> d_id ` set (departments s)"
proof -
  have e: "(p, d_id r) \<in> parent_edges (departments s)"
    using assms(2,3) by (auto simp: parent_edges_def)
  have "climbs (departments s) (length (departments s)) (d_id r)"
    using assms(1,2) by (simp add: rooted_def)
  from climbs_edge[OF _ e this] assms(1) obtain m where "climbs (departments s) m p"
    by (auto simp: rooted_def)
  then show ?thesis by (rule climbs_is_row)
qed

lemma edge_parent_is_row:
  "rooted s \<Longrightarrow> (p, c) \<in> parent_edges (departments s) \<Longrightarrow> p \<in> d_id ` set (departments s)"
  by (auto simp: parent_edges_def dest: rooted_parent_is_row)

lemma rooted_intro:
  assumes dist: "distinct (map d_id ds)" and acyc: "acyclic (parent_edges ds)"
    and fk: "\<And>r p. r \<in> set ds \<Longrightarrow> d_parent_id r = Some p \<Longrightarrow> p \<in> d_id ` set ds"
    and tab: "departments s = ds"
  shows "rooted s"
proof -
  let ?E = "parent_edges ds"
  let ?ids = "d_id ` set ds"
  let ?A = "\<lambda>u. {a. (a, u) \<in> ?E\<^sup>+}"
  have src: "a \<in> ?ids" if "(a, u) \<in> ?E\<^sup>+" for a u
  proof -
    from that obtain x where "(a, x) \<in> ?E" by (meson tranclD)
    then obtain r where "r \<in> set ds" "d_parent_id r = Some a"
      by (auto simp: parent_edges_def)
    then show ?thesis by (rule fk)
  qed
  have A_sub: "?A u \<subseteq> ?ids - {u}" for u
  proof
    fix a assume "a \<in> ?A u"
    then have au: "(a, u) \<in> ?E\<^sup>+" by simp
    then have "a \<noteq> u" using acyc by (auto simp: acyclic_def)
    with src[OF au] show "a \<in> ?ids - {u}" by simp
  qed
  have fin: "finite (?A u)" for u
    by (rule finite_subset[OF A_sub]) simp
  have card_ids: "card ?ids = length ds"
    using distinct_card[OF dist] by simp
  have A_card: "Suc (card (?A u)) \<le> length ds" if "u \<in> ?ids" for u
  proof -
    have "card (?A u) \<le> card (?ids - {u})"
      by (rule card_mono[OF _ A_sub]) simp
    also have "\<dots> < card ?ids"
      using that by (intro psubset_card_mono) auto
    finally show ?thesis by (simp add: card_ids)
  qed
  have up: "climbs ds (Suc (card (?A u))) u" if "u \<in> ?ids" for u
    using that
  proof (induction "card (?A u)" arbitrary: u rule: less_induct)
    case less
    from less.prems obtain r where r: "r \<in> set ds" "d_id r = u" by auto
    have f: "find (\<lambda>x. d_id x = u) ds = Some r"
      using find_by_id[OF dist r(1)] r(2) by simp
    show ?case
    proof (cases "d_parent_id r")
      case None
      with f show ?thesis by simp
    next
      case (Some p)
      have p: "p \<in> ?ids" using fk[OF r(1) Some] .
      have e: "(p, u) \<in> ?E" using r Some by (auto simp: parent_edges_def)
      have "?A p \<subseteq> ?A u" using e by (auto intro: trancl_into_trancl)
      moreover have "p \<in> ?A u" using e by auto
      moreover have "p \<notin> ?A p" using acyc by (auto simp: acyclic_def)
      ultimately have "?A p \<subset> ?A u" by blast
      then have lt: "card (?A p) < card (?A u)"
        by (rule psubset_card_mono[OF fin])
      from less.hyps[OF lt p] have "climbs ds (Suc (card (?A p))) p" .
      from climbs_mono[OF this, of "card (?A u)"] lt have "climbs ds (card (?A u)) p"
        by simp
      with f Some show ?thesis by simp
    qed
  qed
  have "climbs ds (length ds) (d_id r)" if "r \<in> set ds" for r
  proof -
    from that have m: "d_id r \<in> ?ids" by simp
    from climbs_mono[OF up[OF m] A_card[OF m]] show ?thesis .
  qed
  with dist tab show ?thesis by (simp add: rooted_def)
qed

section \<open>Successful mutations keep the store rooted\<close>

lemma GetByID_Inr_row: "GetByID s i = Inr d \<Longrightarrow> \<exists>r. find_department s i = Some r \<and> d = scan_department r"
  by (auto simp: GetByID_def split: if_splits option.splits)

lemma parent_edges_append:
  "parent_edges (ds @ [r]) =
     parent_edges ds \<union> (case d_parent_id r of None \<Rightarrow> {} | Some p \<Rightarrow> {(p, d_id r)})"
  by (auto simp: parent_edges_def split: option.splits)

lemma no_edge_from_fresh:
  assumes "rooted s" and "i \<notin> d_id ` set (departments s)"
  shows "(i, p) \<in> (parent_edges (departments s))\<^sup>* \<longleftrightarrow> p = i"
proof
  assume "(i, p) \<in> (parent_edges (departments s))\<^sup>*"
  then show "p = i"
  proof (cases rule: converse_rtranclE)
    case base
    then show ?thesis by simp
  next
    case (step y)
    from edge_parent_is_row[OF assms(1) step(1)] assms(2) show ?thesis by simp
  qed
qed simp

lemma Create_success:
  assumes "Create s req = (Inr d, s')"
  shows "departments s' =
           departments s @ [\<lparr>d_id = departments_id_seq s, d_name = TrimSpace (crt_Name req),
                             d_parent_id = crt_ParentID req, d_created_at = now s\<rparr>]
         \<and> departments_id_seq s \<notin> d_id ` set (departments s)
         \<and> (\<forall>p. crt_ParentID req = Some p \<longrightarrow> p \<in> d_id ` set (departments s))"
proof -
  have par: "p \<in> d_id ` set (departments s)" if "crt_ParentID req = Some p" for p
  proof -
    from assms that obtain dp where "GetByID s p = Inr dp"
      by (cases "GetByID s p") (auto simp: Create_def Let_def)
    from GetByID_Inr_row[OF this] find_department_id show ?thesis by blast
  qed
  have "Create_repo s (Department 0 (TrimSpace (crt_Name req)) (crt_ParentID req) 0 [] []) = (Inr d, s')"
    using assms
    by (auto simp: Create_def Let_def split: sum.splits option.splits if_splits)
  then have "departments s' =
           departments s @ [\<lparr>d_id = departments_id_seq s, d_name = TrimSpace (crt_Name req),
                             d_parent_id = crt_ParentID req, d_created_at = now s\<rparr>]
         \<and> departments_id_seq s \<notin> d_id ` set (departments s)"
    by (auto simp: Create_repo_def Let_def row_of_def split: if_splits)
  with par show ?thesis by blast
qed

lemma Create_rooted:
  assumes "rooted s" and "Create s req = (Inr d, s')"
  shows "rooted s'"
proof -
  let ?ds = "departments s"
  let ?i = "departments_id_seq s"
  let ?r = "\<lparr>d_id = ?i, d_name = TrimSpace (crt_Name req),
             d_parent_id = crt_ParentID req, d_created_at = now s\<rparr>"
  from Create_success[OF assms(2)] have tab: "departments s' = ?ds @ [?r]"
    and fresh: "?i \<notin> d_id ` set ?ds"
    and par: "\<And>p. crt_ParentID req = Some p \<Longrightarrow> p \<in> d_id ` set ?ds"
    by blast+
  have dist: "distinct (map d_id (?ds @ [?r]))"
    using assms(1) fresh by (simp add: rooted_def)
  have acyc0: "acyclic (parent_edges ?ds)"
    using assms(1) by (rule rooted_acyclic)
  have acyc: "acyclic (parent_edges (?ds @ [?r]))"
  proof (cases "crt_ParentID req")
    case None
    with acyc0 show ?thesis by (simp add: parent_edges_append)
  next
    case (Some p)
    have "p \<noteq> ?i" using par[OF Some] fresh by blast
    then have "(?i, p) \<notin> (parent_edges ?ds)\<^sup>*"
      using no_edge_from_fresh[OF assms(1) fresh, of p] by simp
    with acyc0 Some show ?thesis by (simp add: parent_edges_append)
  qed
  have fk: "p \<in> d_id ` set (?ds @ [?r])" if "r \<in> set (?ds @ [?r])" "d_parent_id r = Some p" for r p
  proof (cases "r \<in> set ?ds")
    case True
    from rooted_parent_is_row[OF assms(1) True that(2)] show ?thesis by auto
  next
    case False
    with that have "crt_ParentID req = Some p" by auto
    from par[OF this] show ?thesis by auto
  qed
  show ?thesis
    by (rule rooted_intro[OF dist acyc fk tab])
qed


lemma Update_name_keeps:
  "Update_name s i req dept = Inr dept1 \<Longrightarrow>
   ID dept1 = ID dept \<and> ParentID dept1 = ParentID dept \<and> CreatedAt dept1 = CreatedAt dept"
  by (auto simp: Update_name_def Let_def split: option.splits sum.splits if_splits)

lemma Update_parent_keeps:
  assumes "Update_parent s i req dept1 = Some (Inr dept2)"
  shows "ID dept2 = ID dept1 \<and> CreatedAt dept2 = CreatedAt dept1 \<and>
         (ParentID dept2 = ParentID dept1 \<or>
          (\<exists>p dp. ParentID dept2 = Some p \<and> p \<noteq> i \<and> GetByID s p = Inr dp \<and>
                  IsDescendant s i p = Some (Inr False)))"
proof (cases "upd_ParentID req")
  case None
  with assms show ?thesis by (simp add: Update_parent_def)
next
  case (Some p)
  with assms have ne: "p \<noteq> i"
    by (auto simp: Update_parent_def split: if_splits)
  from assms Some ne obtain dp where dp: "GetByID s p = Inr dp"
    by (cases "GetByID s p") (auto simp: Update_parent_def)
  from assms Some ne dp have desc: "IsDescendant s i p = Some (Inr False)"
    by (auto simp: Update_parent_def split: option.splits sum.splits if_splits)
  from assms Some ne dp desc
  have "dept2 = Department (ID dept1) (Name dept1) (Some p) (CreatedAt dept1) (Employees dept1) (Children dept1)"
    by (auto simp: Update_parent_def split: sum.splits if_splits)
  with ne dp desc show ?thesis by auto
qed

lemma IsDescendant_False_rooted:
  assumes "rooted s" and "IsDescendant s i p = Some (Inr False)"
  shows "p \<notin> descendants_of (departments s) i"
proof -
  from assms(2) obtain res where res: "GetAllDescendantIDs s i = Some (Inr res)" "p \<notin> set res"
    by (auto simp: IsDescendant_def split: option.splits sum.splits)
  then have "\<not> db_fault s (SelectDescendants i)"
    by (auto simp: GetAllDescendantIDs_def split: if_splits)
  from GetAllDescendantIDs_rooted[OF assms(1) this] res show ?thesis by auto
qed

lemma Update_success:
  assumes "Update s i req = Some (Inr d, s')"
  shows "\<exists>r nm par. find_department s i = Some r \<and>
           departments s' =
             map (\<lambda>x. if d_id x = i
                       then \<lparr>d_id = i, d_name = nm, d_parent_id = par, d_created_at = d_created_at r\<rparr>
                       else x) (departments s) \<and>
           (par = d_parent_id r \<or>
            (\<exists>p dp. par = Some p \<and> p \<noteq> i \<and> GetByID s p = Inr dp \<and>
                    IsDescendant s i p = Some (Inr False)))"
proof -
  from assms obtain dept where g: "GetByID s i = Inr dept"
    by (cases "GetByID s i") (auto simp: Update_def)
  from GetByID_Inr_row[OF g] obtain r where r: "find_department s i = Some r" "dept = scan_department r"
    by blast
  from find_department_id[OF r(1)] have rin: "r \<in> set (departments s)" "d_id r = i"
    by simp_all
  from assms g obtain dept1 where n: "Update_name s i req dept = Inr dept1"
    by (cases "Update_name s i req dept") (auto simp: Update_def)
  from assms g n obtain dept2 where p: "Update_parent s i req dept1 = Some (Inr dept2)"
    by (auto simp: Update_def split: option.splits sum.splits)
  from assms g n p have w: "Update_repo s dept2 = (None, s')"
    by (auto simp: Update_def split: option.splits prod.splits)
  note k1 = Update_name_keeps[OF n] and k2 = Update_parent_keeps[OF p]
  have idd: "ID dept2 = i" "CreatedAt dept2 = d_created_at r"
    using k1 k2 r(2) rin(2) by (simp_all add: scan_department_def)
  have inn: "ID dept2 \<in> d_id ` set (departments s)"
    using idd(1) rin by (metis imageI)
  from w inn have tab: "departments s' =
      map (\<lambda>x. if d_id x = i then row_of dept2 else x) (departments s)"
    by (auto simp: Update_repo_def idd(1) split: if_splits)
  have row: "row_of dept2 = \<lparr>d_id = i, d_name = Name dept2, d_parent_id = ParentID dept2,
                              d_created_at = d_created_at r\<rparr>"
    by (simp add: row_of_def idd)
  have "ParentID dept1 = d_parent_id r"
    using k1 r(2) by (simp add: scan_department_def)
  with k2 have "ParentID dept2 = d_parent_id r \<or>
            (\<exists>p dp. ParentID dept2 = Some p \<and> p \<noteq> i \<and> GetByID s p = Inr dp \<and>
                    IsDescendant s i p = Some (Inr False))"
    by auto
  with r(1) tab row show ?thesis
    by (intro exI[of _ r] exI[of _ "Name dept2"] exI[of _ "ParentID dept2"]) simp
qed

lemma parent_edges_replace:
  "parent_edges (map (\<lambda>x. if d_id x = i then \<lparr>d_id = i, d_name = nm, d_parent_id = par, d_created_at = t\<rparr> else x) ds)
   \<subseteq> parent_edges ds \<union> (case par of None \<Rightarrow> {} | Some p \<Rightarrow> {(p, i)})"
  by (auto simp: parent_edges_def split: option.splits if_splits)

lemma Update_rooted:
  assumes "rooted s" and "Update s i req = Some (Inr d, s')"
  shows "rooted s'"
proof -
  let ?ds = "departments s"
  let ?E = "parent_edges ?ds"
  from Update_success[OF assms(2)] obtain r nm par where
    r: "find_department s i = Some r"
    and tab: "departments s' =
             map (\<lambda>x. if d_id x = i
                       then \<lparr>d_id = i, d_name = nm, d_parent_id = par, d_created_at = d_created_at r\<rparr>
                       else x) ?ds"
    and par: "par = d_parent_id r \<or>
            (\<exists>p dp. par = Some p \<and> p \<noteq> i \<and> GetByID s p = Inr dp \<and>
                    IsDescendant s i p = Some (Inr False))"
    by blast
  let ?ds' = "map (\<lambda>x. if d_id x = i
                       then \<lparr>d_id = i, d_name = nm, d_parent_id = par, d_created_at = d_created_at r\<rparr>
                       else x) ?ds"
  from find_department_id[OF r] have rin: "r \<in> set ?ds" "d_id r = i" by simp_all
  have ids: "map d_id ?ds' = map d_id ?ds"
    by (induction ?ds) auto
  have dist: "distinct (map d_id ?ds')"
    using assms(1) unfolding ids by (simp add: rooted_def)
  have acyc0: "acyclic ?E" using assms(1) by (rule rooted_acyclic)
  have par_row: "p \<in> d_id ` set ?ds" if "par = Some p" for p
    using par
  proof
    assume "par = d_parent_id r"
    with that rooted_parent_is_row[OF assms(1) rin(1)] show ?thesis by simp
  next
    assume "\<exists>p dp. par = Some p \<and> p \<noteq> i \<and> GetByID s p = Inr dp \<and> IsDescendant s i p = Some (Inr False)"
    with that obtain dp where "GetByID s p = Inr dp" by auto
    from GetByID_Inr_row[OF this] find_department_id show ?thesis by blast
  qed
  have acyc: "acyclic (parent_edges ?ds')"
    using par
  proof
    assume same: "par = d_parent_id r"
    have "parent_edges ?ds' \<subseteq> ?E"
    proof (rule subset_trans[OF parent_edges_replace])
      show "?E \<union> (case par of None \<Rightarrow> {} | Some p \<Rightarrow> {(p, i)}) \<subseteq> ?E"
        using same rin by (auto simp: parent_edges_def split: option.splits)
    qed
    with acyc0 show ?thesis by (rule acyclic_subset)
  next
    assume "\<exists>p dp. par = Some p \<and> p \<noteq> i \<and> GetByID s p = Inr dp \<and> IsDescendant s i p = Some (Inr False)"
    then obtain p where p: "par = Some p" "p \<noteq> i" "IsDescendant s i p = Some (Inr False)"
      by blast
    have "(i, p) \<notin> ?E\<^sup>+"
      using IsDescendant_False_rooted[OF assms(1) p(3)] by (simp add: descendants_of_def)
    with p(2) have "(i, p) \<notin> ?E\<^sup>*"
      by (auto simp: rtrancl_eq_or_trancl)
    with acyc0 have "acyclic (insert (p, i) ?E)" by simp
    moreover have "parent_edges ?ds' \<subseteq> insert (p, i) ?E"
      using parent_edges_replace[of i nm par "d_created_at r" ?ds] p(1) by auto
    ultimately show ?thesis by (rule acyclic_subset)
  qed
  have same_ids: "d_id ` set ?ds' = d_id ` set ?ds"
    using arg_cong[OF ids, of set] unfolding set_map .
  have fk: "p \<in> d_id ` set ?ds'" if "x \<in> set ?ds'" "d_parent_id x = Some p" for x p
  proof -
    from that(1) have "x \<in> set ?ds \<or> x = \<lparr>d_id = i, d_name = nm, d_parent_id = par, d_created_at = d_created_at r\<rparr>"
      by auto
    then have "p \<in> d_id ` set ?ds"
    proof
      assume "x \<in> set ?ds"
      from rooted_parent_is_row[OF assms(1) this that(2)] show ?thesis .
    next
      assume "x = \<lparr>d_id = i, d_name = nm, d_parent_id = par, d_created_at = d_created_at r\<rparr>"
      with that(2) have "par = Some p" by simp
      then show ?thesis by (rule par_row)
    qed
    then show ?thesis unfolding same_ids .
  qed
  show ?thesis
    by (rule rooted_intro[OF dist acyc fk tab])
qed


lemma Delete_repo_success:
  "Delete_repo s i = (None, s') \<Longrightarrow>
   \<not> db_fault s (DeleteDepartment i) \<and> i \<in> d_id ` set (departments s)"
  by (auto simp: Delete_repo_def filter_empty_conv split: if_splits)

lemma reassign_each_departments:
  "reassign_each s ds t = (r, s') \<Longrightarrow> departments s' = departments s"
  by (drule reassign_each_done) auto

lemma Delete_success:
  assumes "Delete s i q = Some (None, s')"
  shows "\<exists>s2. departments s2 = departments s \<and> Delete_repo s2 i = (None, s')"
proof (cases "Mode q = ''cascade''")
  case True
  with assms have "Delete_repo s i = (None, s')"
    by (auto simp: Delete_def DeleteCascade_def split: sum.splits)
  then show ?thesis by blast
next
  case False
  with assms obtain t where t: "ReassignToDepartmentID q = Some t" and m: "Mode q = ''reassign''"
    by (auto simp: Delete_def split: sum.splits option.splits if_splits)
  from assms False t m obtain s1 where s1: "ReassignToDepartment s i t = (None, s1)"
    by (auto simp: Delete_def split: sum.splits option.splits if_splits prod.splits)
  from assms False t m s1 obtain res where res: "GetAllDescendantIDs s1 i = Some (Inr res)"
    by (auto simp: Delete_def split: sum.splits option.splits if_splits prod.splits)
  from assms False t m s1 res obtain s2 where s2: "reassign_each s1 res t = (None, s2)"
    by (auto simp: Delete_def split: sum.splits option.splits if_splits prod.splits)
  from assms False t m s1 res s2 have del: "Delete_repo s2 i = (None, s')"
    by (auto simp: Delete_def DeleteCascade_def split: sum.splits option.splits if_splits)
  have "departments s1 = departments s"
    using ReassignToDepartment_cases[OF s1] by auto
  with reassign_each_departments[OF s2] del show ?thesis by auto
qed

lemma parent_edges_sublist: "parent_edges (filter P ds) \<subseteq> parent_edges ds"
  by (auto simp: parent_edges_def)

lemma Delete_rooted:
  assumes "rooted s" and "Delete s i q = Some (None, s')"
  shows "rooted s'"
proof -
  let ?ds = "departments s"
  let ?S = "subtree_of ?ds i"
  let ?ds' = "filter (\<lambda>r. d_id r \<notin> ?S) ?ds"
  from Delete_success[OF assms(2)] obtain s2 where
    s2: "departments s2 = ?ds" "Delete_repo s2 i = (None, s')"
    by blast
  have dist0: "distinct (map d_id (departments s2))"
    using assms(1) s2(1) by (simp add: rooted_def)
  from Delete_repo_success[OF s2(2)]
  have "Delete_repo s2 i =
      (None, s2\<lparr>departments := filter (\<lambda>r. d_id r \<notin> subtree_of (departments s2) i) (departments s2),
                employees := filter (\<lambda>e. e_DepartmentID e \<notin> subtree_of (departments s2) i) (employees s2),
                writes := writes s2 @ [DeleteDepartment i]\<rparr>)"
    by (intro Delete_repo_subtree[OF dist0]) auto
  with s2 have tab: "departments s' = ?ds'" by auto
  have dist: "distinct (map d_id ?ds')"
    using assms(1) by (simp add: rooted_def distinct_map_filter)
  have acyc: "acyclic (parent_edges ?ds')"
    using rooted_acyclic[OF assms(1)] parent_edges_sublist by (rule acyclic_subset)
  have fk: "p \<in> d_id ` set ?ds'" if "r \<in> set ?ds'" "d_parent_id r = Some p" for r p
  proof -
    from that have r: "r \<in> set ?ds" "d_id r \<notin> ?S" by auto
    have e: "(p, d_id r) \<in> parent_edges ?ds"
      using r(1) that(2) by (auto simp: parent_edges_def)
    have "p \<notin> ?S"
    proof
      assume "p \<in> ?S"
      then have "(i, d_id r) \<in> (parent_edges ?ds)\<^sup>+"
        using e by (auto simp: subtree_of_def descendants_of_def intro: trancl_into_trancl)
      with r(2) show False by (simp add: subtree_of_def descendants_of_def)
    qed
    moreover from rooted_parent_is_row[OF assms(1) r(1) that(2)]
    obtain rp where "rp \<in> set ?ds" "d_id rp = p" by auto
    ultimately show ?thesis by force
  qed
  show ?thesis
    by (rule rooted_intro[OF dist acyc fk tab])
qed

text \<open>
  C4. From a rooted store (unique identifiers, and the walk along the parent
  references from every department ends at a root), every successful
  \<^verbatim>\<open>Create\<close>, \<^verbatim>\<open>Update\<close> (a rename, a move, or both) and \<^verbatim>\<open>Delete\<close> (either mode)
  leaves a rooted store, in which no department is its own ancestor.
\<close>

theorem mutations_keep_the_tree_acyclic:
  assumes "rooted s"
  shows "(Create s creq = (Inr d, s') \<longrightarrow>
            rooted s' \<and> acyclic (parent_edges (departments s'))) \<and>
         (Update s i ureq = Some (Inr d, s') \<longrightarrow>
            rooted s' \<and> acyclic (parent_edges (departments s'))) \<and>
         (Delete s i q = Some (None, s') \<longrightarrow>
            rooted s' \<and> acyclic (parent_edges (departments s')))"
  using assms by (blast intro: Create_rooted Update_rooted Delete_rooted rooted_acyclic)


lemma org_db_mutations:
  "\<exists>d s'. Create org_db \<lparr>crt_Name = ''QA'', crt_ParentID = Some 2\<rparr> = (Inr d, s')"
  "\<exists>d s'. Update org_db 5 \<lparr>upd_Name = Some ''Support'', upd_ParentID = Some 3\<rparr> = Some (Inr d, s')"
  "\<exists>s'. Delete org_db 3 \<lparr>Mode = ''reassign'', ReassignToDepartmentID = Some 5\<rparr> = Some (None, s')"
proof -
  show "\<exists>d s'. Create org_db \<lparr>crt_Name = ''QA'', crt_ParentID = Some 2\<rparr> = (Inr d, s')"
    by (simp add: Create_def GetByID_def ExistsByNameAndParent_def matches_name_parent_def
        Create_repo_def find_department_def org_db_tables mk_dept_def Let_def
        TrimSpace_def trim_left.simps leading_space_def space_runes_def)
      (simp add: org_db_def)
  show "\<exists>d s'. Update org_db 5 \<lparr>upd_Name = Some ''Support'', upd_ParentID = Some 3\<rparr> = Some (Inr d, s')"
    by (simp add: Update_def Update_name_def Update_parent_def Update_repo_def GetByID_def
        ExistsByNameAndParent_def matches_name_parent_def IsDescendant_def GetAllDescendantIDs_def
        descendants_cte.simps children_ids_def join_children_def
        find_department_def org_db_tables mk_dept_def Let_def scan_department_def
        TrimSpace_def trim_left.simps leading_space_def space_runes_def)
  show "\<exists>s'. Delete org_db 3 \<lparr>Mode = ''reassign'', ReassignToDepartmentID = Some 5\<rparr> = Some (None, s')"
    by (simp add: Delete_def GetByID_def DeleteCascade_def Delete_repo_def find_department_def
        ReassignToDepartment_def GetAllDescendantIDs_def descendants_cte.simps children_ids_def
        join_children_def org_db_tables mk_dept_def mk_emp_def on_delete_cascade.simps Let_def)
qed

theorem mutations_keep_the_tree_acyclic_witness:
  "rooted org_db
   \<and> (\<exists>d s'. Create org_db \<lparr>crt_Name = ''QA'', crt_ParentID = Some 2\<rparr> = (Inr d, s')
         \<and> rooted s' \<and> acyclic (parent_edges (departments s')))
   \<and> (\<exists>d s'. Update org_db 5 \<lparr>upd_Name = Some ''Support'', upd_ParentID = Some 3\<rparr> = Some (Inr d, s')
         \<and> rooted s' \<and> acyclic (parent_edges (departments s')))
   \<and> (\<exists>s'. Delete org_db 3 \<lparr>Mode = ''reassign'', ReassignToDepartmentID = Some 5\<rparr> = Some (None, s')
         \<and> rooted s' \<and> acyclic (parent_edges (departments s')))"
  using mutations_keep_the_tree_acyclic[OF org_db_rooted] org_db_rooted org_db_mutations
  by metis

end
